theory Spec2Isabelle
  imports Complex_Main "HOL-Library.Multiset" "HOL-Library.Log_Nat"
begin

section \<open>JavaScript numbers at the service boundary\<close>

text \<open>
  The four operations of \<^verbatim>\<open>PointService\<close> take \<^verbatim>\<open>userId: number\<close> and
  \<^verbatim>\<open>amount: number\<close>. A \<^verbatim>\<open>number\<close> is a finite value, \<^verbatim>\<open>NaN\<close> or one of the
  two infinities. Finite values are rationals here: every finite double is one. The
  guard of the operations lets through integers only; what the arithmetic of doubles
  does with them is the subject of the next section.
\<close>

datatype number = Finite rat | NaN | Infinity | NegInfinity

definition Number_isInteger :: "number \<Rightarrow> bool" where
  "Number_isInteger x = (case x of Finite q \<Rightarrow> of_int \<lfloor>q\<rfloor> = q | _ \<Rightarrow> False)"

text \<open>The comparison \<^verbatim>\<open>x <= 0\<close>: false for \<^verbatim>\<open>NaN\<close>.\<close>

definition le_zero :: "number \<Rightarrow> bool" where
  "le_zero x = (case x of Finite q \<Rightarrow> q \<le> 0 | NaN \<Rightarrow> False
                | Infinity \<Rightarrow> False | NegInfinity \<Rightarrow> True)"

text \<open>
  The integer a number stands for once it has passed \<^verbatim>\<open>Number.isInteger\<close>; the
  operations use it only behind that check.
\<close>

definition to_int :: "number \<Rightarrow> int" where
  "to_int x = (case x of Finite q \<Rightarrow> \<lfloor>q\<rfloor> | _ \<Rightarrow> 0)"


section \<open>Sums and differences of numbers\<close>

text \<open>
  The balance, the amount and the limit are \<^verbatim>\<open>number\<close>s, IEEE 754 doubles, and
  \<^verbatim>\<open>userPoint.point + amount\<close> and \<^verbatim>\<open>userPoint.point - amount\<close> are the
  operations of doubles: the result is not the exact sum or difference but the double
  nearest to it, a tie going to the neighbour whose significand is even.

  A double has a significand of 53 bits. \<open>ulp x\<close> is the value of the lowest of the 53
  bits in a number of the size of \<open>x\<close>: 1 below \<open>2 ^ 53\<close>, 2 from there to
  \<open>2 ^ 54\<close>, and so on. An integer is a double when it is a multiple of its
  \<open>ulp\<close> and lies below \<open>2 ^ 1024\<close>: every integer up to \<open>2 ^ 53\<close> is one,
  \<open>2 ^ 53 + 1\<close> is not. The balances, amounts and limit of the model are integers; the
  values of the program are the doubles among them.
\<close>

definition ulp :: "int \<Rightarrow> int" where
  "ulp x = 2 ^ nat (bitlen \<bar>x\<bar> - 53)"

definition significand_fits :: "int \<Rightarrow> bool" where
  "significand_fits x \<longleftrightarrow> x mod ulp x = 0"

definition representable :: "int \<Rightarrow> bool" where
  "representable x \<longleftrightarrow> significand_fits x \<and> \<bar>x\<bar> < 2 ^ 1024"

text \<open>
  \<open>nearest x\<close> is the exact integer \<open>x\<close> rounded to 53 significant bits, to the nearer
  of the two multiples of \<open>ulp x\<close> around it and, half way between them, to the even
  one. The sum of two integer doubles \<open>b\<close> and \<open>a\<close> is \<open>nearest (b + a)\<close>, their
  difference \<open>nearest (b - a)\<close>.

  \<open>nearest\<close> has no largest exponent. Where the sum of two doubles is
  \<^verbatim>\<open>Infinity\<close>, \<open>nearest\<close> gives an integer of at least \<open>2 ^ 1024\<close>, which is above
  every double as \<^verbatim>\<open>Infinity\<close> is; where the difference is \<^verbatim>\<open>-Infinity\<close>,
  \<open>nearest\<close> gives a negative integer. The code does nothing with an overflowing
  result but compare it with the limit or with 0 and reject, so the two agree.
\<close>

definition nearest :: "int \<Rightarrow> int" where
  "nearest x =
     (let q = ulp x; d = x div q; r = x mod q
      in if 2 * r < q then d * q
         else if q < 2 * r then (d + 1) * q
         else if even d then d * q else (d + 1) * q)"


section \<open>Data model\<close>

record UserPoint =
  u_id :: int
  point :: int
  updateMillis :: int

datatype TransactionType = CHARGE | USE

record PointHistory =
  h_id :: int
  h_userId :: int
  h_amount :: int
  h_type :: TransactionType
  h_timeMillis :: int

text \<open>
  Every failure of the service is a thrown \<^verbatim>\<open>Error\<close> with a message. The three
  validation messages are the \<open>InvalidArgument\<close> kind, the limit message carries the
  configured limit (\<^verbatim>\<open>${this.chargeLimit}\<close>), and \<open>Rejected\<close> is whatever a
  collaborator's promise rejects with.
\<close>

datatype message = InvalidId | InvalidChargeAmount | InvalidUseAmount

datatype error =
    InvalidArgument message
  | LimitExceeded int
  | InsufficientPoint
  | TypeError
  | Rejected string


section \<open>Promises run to settlement\<close>

text \<open>
  An awaited call takes the state it runs in and settles: rejected with an error
  (\<open>Inl\<close>) or fulfilled with a value (\<open>Inr\<close>), leaving a new state.
\<close>

type_synonym ('s, 'a) promise = "'s \<Rightarrow> (error + 'a) \<times> 's"

definition resolve :: "'a \<Rightarrow> ('s, 'a) promise" where
  "resolve x s = (Inr x, s)"

definition reject :: "error \<Rightarrow> ('s, 'a) promise" where
  "reject e s = (Inl e, s)"

definition await :: "('s, 'a) promise \<Rightarrow> ('a \<Rightarrow> ('s, 'b) promise) \<Rightarrow> ('s, 'b) promise" where
  "await p k s = (case p s of (Inl e, s') \<Rightarrow> (Inl e, s') | (Inr x, s') \<Rightarrow> k x s')"


section \<open>Collaborators\<close>

text \<open>
  \<^verbatim>\<open>PointService\<close> receives its two tables and the configuration through its
  constructor; the unit tests pass stubs. The service is therefore a function of the
  collaborators it is given, each with a state of its own. \<open>chargeLimit\<close> is the
  number read once from the setting \<^verbatim>\<open>CHARGE_LIMIT\<close> (default \<^verbatim>\<open>"100000"\<close>), an
  integer in every configuration of the repository. The fields \<^verbatim>\<open>id\<close> of the two
  record types and the method \<^verbatim>\<open>insert\<close> carry a prefix or suffix here, their names
  being taken.
\<close>

record 'u UserPointTable =
  selectById :: "int \<Rightarrow> ('u, UserPoint) promise"
  insertOrUpdate :: "int \<Rightarrow> int \<Rightarrow> ('u, UserPoint) promise"

record 'h PointHistoryTable =
  selectAllByUserId :: "int \<Rightarrow> ('h, PointHistory list) promise"
  insert_row :: "int \<Rightarrow> int \<Rightarrow> TransactionType \<Rightarrow> int \<Rightarrow> ('h, PointHistory) promise"

record ('u, 'h) PointService =
  userDb :: "'u UserPointTable"
  historyDb :: "'h PointHistoryTable"
  chargeLimit :: int

text \<open>The state of the two tables, and the state of the lock-guarded service around it.\<close>

record ('u, 'h) tables =
  users :: 'u
  histories :: 'h

record ('u, 'h) world =
  locks :: "int \<rightharpoonup> nat"
  mutexes :: nat
  db :: "('u, 'h) tables"

definition on_users :: "('u, 'a) promise \<Rightarrow> (('u, 'h) tables, 'a) promise" where
  "on_users p d = (case p (users d) of (r, us) \<Rightarrow> (r, d\<lparr>users := us\<rparr>))"

definition on_histories :: "('h, 'a) promise \<Rightarrow> (('u, 'h) tables, 'a) promise" where
  "on_histories p d = (case p (histories d) of (r, hs) \<Rightarrow> (r, d\<lparr>histories := hs\<rparr>))"

definition on_db :: "(('u, 'h) tables, 'a) promise \<Rightarrow> (('u, 'h) world, 'a) promise" where
  "on_db p w = (case p (db w) of (r, d) \<Rightarrow> (r, w\<lparr>db := d\<rparr>))"


section \<open>The lock registry\<close>

text \<open>
  \<^verbatim>\<open>locks\<close> is a \<^verbatim>\<open>Map<number, Mutex>\<close>. A \<^verbatim>\<open>Mutex\<close> is an object with an
  identity: the model names the objects by the order of their construction, and
  \<open>mutexes\<close> counts the \<^verbatim>\<open>new Mutex()\<close> evaluated so far. \<^verbatim>\<open>Map.get\<close> may
  answer \<^verbatim>\<open>undefined\<close>, hence the option.
\<close>

definition getMutexForUser :: "int \<Rightarrow> ('u, 'h) world \<Rightarrow> nat option \<times> ('u, 'h) world" where
  "getMutexForUser userId w =
     (let w1 = (if \<not> (userId \<in> dom (locks w))
                then w\<lparr>locks := (locks w)(userId \<mapsto> mutexes w), mutexes := Suc (mutexes w)\<rparr>
                else w)
      in (locks w1 userId, w1))"

text \<open>
  \<^verbatim>\<open>runExclusive\<close> acquires the mutex, awaits the callback and releases the mutex
  whether the callback fulfils or rejects. In a call that runs with no other call in
  flight the mutex is free on entry and free again on exit, so the callback's
  settlement is the settlement of \<^verbatim>\<open>runExclusive\<close>.
\<close>

definition runExclusive :: "nat \<Rightarrow> ('s, 'a) promise \<Rightarrow> ('s, 'a) promise" where
  "runExclusive mutex callback = callback"


section \<open>The lock-guarded service (point.service.ts)\<close>

text \<open>
  \<open>tInsert\<close> and \<open>tReturn\<close> are the two readings of \<^verbatim>\<open>Date.now()\<close>: the one passed
  to the history table and the one in the returned record.
\<close>

definition getPoint :: "('u, 'h) PointService \<Rightarrow> number \<Rightarrow> (('u, 'h) world, UserPoint) promise" where
  "getPoint this userId =
     (if \<not> Number_isInteger userId \<or> le_zero userId then reject (InvalidArgument InvalidId)
      else on_db (on_users (selectById (userDb this) (to_int userId))))"

definition getHistories ::
  "('u, 'h) PointService \<Rightarrow> number \<Rightarrow> (('u, 'h) world, PointHistory list) promise" where
  "getHistories this userId =
     (if \<not> Number_isInteger userId \<or> le_zero userId then reject (InvalidArgument InvalidId)
      else on_db (on_histories (selectAllByUserId (historyDb this) (to_int userId))))"

definition chargePoint ::
  "('u, 'h) PointService \<Rightarrow> int \<Rightarrow> int \<Rightarrow> number \<Rightarrow> number \<Rightarrow> (('u, 'h) world, UserPoint) promise" where
  "chargePoint this tInsert tReturn userId amount w =
     (if \<not> Number_isInteger userId \<or> le_zero userId then reject (InvalidArgument InvalidId) w
      else if \<not> Number_isInteger amount \<or> le_zero amount
        then reject (InvalidArgument InvalidChargeAmount) w
      else case getMutexForUser (to_int userId) w of
        (None, w1) \<Rightarrow> reject TypeError w1
      | (Some mutex, w1) \<Rightarrow>
          await
            (runExclusive mutex (on_db
              (await (on_users (selectById (userDb this) (to_int userId))) (\<lambda>userPoint.
                 let updatedPoint = nearest (point userPoint + to_int amount) in
                 if updatedPoint > chargeLimit this
                 then reject (LimitExceeded (chargeLimit this))
                 else
                   await (on_users (insertOrUpdate (userDb this) (to_int userId) updatedPoint)) (\<lambda>_.
                   await (on_histories
                     (insert_row (historyDb this) (to_int userId) (to_int amount) CHARGE tInsert)) (\<lambda>_.
                   resolve updatedPoint))))))
            (\<lambda>updatedPoint.
               resolve \<lparr>u_id = to_int userId, point = updatedPoint, updateMillis = tReturn\<rparr>)
            w1)"

definition usePoint ::
  "('u, 'h) PointService \<Rightarrow> int \<Rightarrow> int \<Rightarrow> number \<Rightarrow> number \<Rightarrow> (('u, 'h) world, UserPoint) promise" where
  "usePoint this tInsert tReturn userId amount w =
     (if \<not> Number_isInteger userId \<or> le_zero userId then reject (InvalidArgument InvalidId) w
      else if \<not> Number_isInteger amount \<or> le_zero amount
        then reject (InvalidArgument InvalidUseAmount) w
      else case getMutexForUser (to_int userId) w of
        (None, w1) \<Rightarrow> reject TypeError w1
      | (Some mutex, w1) \<Rightarrow>
          await
            (runExclusive mutex (on_db
              (await (on_users (selectById (userDb this) (to_int userId))) (\<lambda>userPoint.
                 let updatedPoint = nearest (point userPoint - to_int amount) in
                 if updatedPoint < 0
                 then reject InsufficientPoint
                 else
                   await (on_users (insertOrUpdate (userDb this) (to_int userId) updatedPoint)) (\<lambda>_.
                   await (on_histories
                     (insert_row (historyDb this) (to_int userId) (to_int amount) USE tInsert)) (\<lambda>_.
                   resolve updatedPoint))))))
            (\<lambda>updatedPoint.
               resolve \<lparr>u_id = to_int userId, point = updatedPoint, updateMillis = tReturn\<rparr>)
            w1)"


section \<open>The variant without a lock\<close>

text \<open>
  The earlier \<^verbatim>\<open>PointService\<close> has no \<^verbatim>\<open>locks\<close> field: its state is the state
  of the two tables.
\<close>

definition getPoint_nolock ::
  "('u, 'h) PointService \<Rightarrow> number \<Rightarrow> (('u, 'h) tables, UserPoint) promise" where
  "getPoint_nolock this userId =
     (if \<not> Number_isInteger userId \<or> le_zero userId then reject (InvalidArgument InvalidId)
      else on_users (selectById (userDb this) (to_int userId)))"

definition getHistories_nolock ::
  "('u, 'h) PointService \<Rightarrow> number \<Rightarrow> (('u, 'h) tables, PointHistory list) promise" where
  "getHistories_nolock this userId =
     (if \<not> Number_isInteger userId \<or> le_zero userId then reject (InvalidArgument InvalidId)
      else on_histories (selectAllByUserId (historyDb this) (to_int userId)))"

definition chargePoint_nolock ::
  "('u, 'h) PointService \<Rightarrow> int \<Rightarrow> int \<Rightarrow> number \<Rightarrow> number \<Rightarrow> (('u, 'h) tables, UserPoint) promise" where
  "chargePoint_nolock this tInsert tReturn userId amount =
     (if \<not> Number_isInteger userId \<or> le_zero userId then reject (InvalidArgument InvalidId)
      else if \<not> Number_isInteger amount \<or> le_zero amount
        then reject (InvalidArgument InvalidChargeAmount)
      else
        await (on_users (selectById (userDb this) (to_int userId))) (\<lambda>userPoint.
          let updatedPoint = nearest (point userPoint + to_int amount) in
          if updatedPoint > chargeLimit this
          then reject (LimitExceeded (chargeLimit this))
          else
            await (on_users (insertOrUpdate (userDb this) (to_int userId) updatedPoint)) (\<lambda>_.
            await (on_histories
              (insert_row (historyDb this) (to_int userId) (to_int amount) CHARGE tInsert)) (\<lambda>_.
            resolve \<lparr>u_id = to_int userId, point = updatedPoint, updateMillis = tReturn\<rparr>))))"

definition usePoint_nolock ::
  "('u, 'h) PointService \<Rightarrow> int \<Rightarrow> int \<Rightarrow> number \<Rightarrow> number \<Rightarrow> (('u, 'h) tables, UserPoint) promise" where
  "usePoint_nolock this tInsert tReturn userId amount =
     (if \<not> Number_isInteger userId \<or> le_zero userId then reject (InvalidArgument InvalidId)
      else if \<not> Number_isInteger amount \<or> le_zero amount
        then reject (InvalidArgument InvalidUseAmount)
      else
        await (on_users (selectById (userDb this) (to_int userId))) (\<lambda>userPoint.
          let updatedPoint = nearest (point userPoint - to_int amount) in
          if updatedPoint < 0
          then reject InsufficientPoint
          else
            await (on_users (insertOrUpdate (userDb this) (to_int userId) updatedPoint)) (\<lambda>_.
            await (on_histories
              (insert_row (historyDb this) (to_int userId) (to_int amount) USE tInsert)) (\<lambda>_.
            resolve \<lparr>u_id = to_int userId, point = updatedPoint, updateMillis = tReturn\<rparr>))))"


section \<open>The tables\<close>

text \<open>
  The classes \<^verbatim>\<open>UserPointTable\<close> and \<^verbatim>\<open>PointHistoryTable\<close> of
  \<^verbatim>\<open>src/database\<close> are given here by their contract. Each table also keeps the list
  of the calls it has received, as the test doubles of the unit tests do, so that "no
  call" is a fact about the state.
\<close>

datatype user_call = SelectById int | InsertOrUpdate int int

record user_table =
  rows :: "int \<rightharpoonup> UserPoint"
  clock :: int
  calls :: "user_call list"

datatype history_call = SelectAllByUserId int | Insert int int TransactionType int

record history_table =
  entries :: "PointHistory list"
  cursor :: int
  hcalls :: "history_call list"

text \<open>
  Modelled from the spec: the record \<^verbatim>\<open>selectById\<close> of the missing
  \<^verbatim>\<open>UserPointTable\<close> answers with, the stored one or "a zero-balance default if
  absent".
\<close>

definition stored :: "user_table \<Rightarrow> int \<Rightarrow> UserPoint" where
  "stored t i = (case rows t i of None \<Rightarrow> \<lparr>u_id = i, point = 0, updateMillis = clock t\<rparr>
                 | Some r \<Rightarrow> r)"

text \<open>
  Modelled from the spec: the missing class \<^verbatim>\<open>UserPointTable\<close>.
  \<^verbatim>\<open>selectById\<close> "never fails for an unknown id"; \<^verbatim>\<open>insertOrUpdate\<close> is one
  replace keyed by the user id and answers with the record it stored.
\<close>

definition inMemoryUserPointTable :: "user_table UserPointTable" where
  "inMemoryUserPointTable =
     \<lparr> selectById = (\<lambda>i t. (Inr (stored t i), t\<lparr>calls := calls t @ [SelectById i]\<rparr>)),
       insertOrUpdate = (\<lambda>i p t.
         (Inr \<lparr>u_id = i, point = p, updateMillis = clock t\<rparr>,
          t\<lparr>rows := (rows t)(i \<mapsto> \<lparr>u_id = i, point = p, updateMillis = clock t\<rparr>),
            calls := calls t @ [InsertOrUpdate i p]\<rparr>)) \<rparr>"

text \<open>
  Modelled from the spec: the missing class \<^verbatim>\<open>PointHistoryTable\<close>.
  \<^verbatim>\<open>insert\<close> appends one record with an identifier of its own (append-only);
  \<^verbatim>\<open>selectAllByUserId\<close> answers with the records of the user in insertion order.
\<close>

definition inMemoryPointHistoryTable :: "history_table PointHistoryTable" where
  "inMemoryPointHistoryTable =
     \<lparr> selectAllByUserId = (\<lambda>i t.
         (Inr (filter (\<lambda>h. h_userId h = i) (entries t)),
          t\<lparr>hcalls := hcalls t @ [SelectAllByUserId i]\<rparr>)),
       insert_row = (\<lambda>i a ty ms t.
         (Inr \<lparr>h_id = cursor t, h_userId = i, h_amount = a, h_type = ty, h_timeMillis = ms\<rparr>,
          t\<lparr>entries := entries t @
               [\<lparr>h_id = cursor t, h_userId = i, h_amount = a, h_type = ty, h_timeMillis = ms\<rparr>],
            cursor := cursor t + 1,
            hcalls := hcalls t @ [Insert i a ty ms]\<rparr>)) \<rparr>"

definition inMemoryService :: "int \<Rightarrow> (user_table, history_table) PointService" where
  "inMemoryService limit =
     \<lparr> userDb = inMemoryUserPointTable, historyDb = inMemoryPointHistoryTable,
       chargeLimit = limit \<rparr>"

text \<open>The balance of a user as the store holds it.\<close>

definition balance :: "(user_table, 'h) world \<Rightarrow> int \<Rightarrow> int" where
  "balance w i = point (stored (users (db w)) i)"


text \<open>A service that has just been constructed over empty tables, and one whose user table
  already holds a balance.\<close>

definition freshWorld :: "(user_table, history_table) world" where
  "freshWorld =
     \<lparr> locks = Map.empty, mutexes = 0,
       db = \<lparr> users = \<lparr>rows = Map.empty, clock = 0, calls = []\<rparr>,
              histories = \<lparr>entries = [], cursor = 1, hcalls = []\<rparr> \<rparr> \<rparr>"

definition seededWorld :: "int \<Rightarrow> int \<Rightarrow> (user_table, history_table) world" where
  "seededWorld i p =
     \<lparr> locks = Map.empty, mutexes = 0,
       db = \<lparr> users = \<lparr>rows = [i \<mapsto> \<lparr>u_id = i, point = p, updateMillis = 0\<rparr>],
                        clock = 0, calls = []\<rparr>,
              histories = \<lparr>entries = [], cursor = 1, hcalls = []\<rparr> \<rparr> \<rparr>"


section \<open>Calls to the registry, one after another\<close>

text \<open>
  \<^verbatim>\<open>getMutexForUser\<close> contains no \<^verbatim>\<open>await\<close>: a call runs from its first statement
  to its \<^verbatim>\<open>return\<close> before any other code of the process runs. However many callers
  are in flight, their calls to the registry therefore happen one after another, in some
  order; \<open>getMutexForUsers\<close> runs the calls of such an order.
\<close>

fun getMutexForUsers :: "int list \<Rightarrow> ('u, 'h) world \<Rightarrow> nat option list \<times> ('u, 'h) world" where
  "getMutexForUsers [] w = ([], w)"
| "getMutexForUsers (userId # rest) w =
     (case getMutexForUser userId w of (m, w1) \<Rightarrow>
        (case getMutexForUsers rest w1 of (ms, w2) \<Rightarrow> (m # ms, w2)))"

text \<open>The registry is well formed: every entry names a constructed object, no object is
  shared by two ids, and as many objects have been constructed as there are entries.\<close>

definition registry_ok :: "('u, 'h) world \<Rightarrow> bool" where
  "registry_ok w \<longleftrightarrow>
     finite (dom (locks w)) \<and> inj_on (locks w) (dom (locks w)) \<and>
     (\<forall>u m. locks w u = Some m \<longrightarrow> m < mutexes w) \<and> mutexes w = card (dom (locks w))"


section \<open>Calls in flight\<close>

text \<open>
  A call of \<^verbatim>\<open>chargePoint\<close> or \<^verbatim>\<open>usePoint\<close> gives up control at each
  \<^verbatim>\<open>await\<close>, and other calls run in between. The stages of a call are the places
  where it can be waiting: not yet started; queued in \<^verbatim>\<open>runExclusive\<close> for its
  mutex; inside the callback with \<^verbatim>\<open>selectById\<close>, \<^verbatim>\<open>insertOrUpdate\<close> or the
  history \<^verbatim>\<open>insert\<close> pending; the callback settled and the mutex still to be
  released; settled.
\<close>

datatype stage =
    Called
  | Queued nat
  | Selecting nat
  | Updating nat int
  | Inserting nat int
  | Leaving nat "error + int"
  | Settled "error + UserPoint"

text \<open>
  One step of a call of \<^verbatim>\<open>chargePoint\<close>: the code between two suspensions, run on
  the state of the service and the set of the mutexes that are locked. A \<^verbatim>\<open>Mutex\<close>
  (package \<^verbatim>\<open>async-mutex\<close>) is granted to one waiter at a time and is released when
  the callback of \<^verbatim>\<open>runExclusive\<close> has settled; a call queued for a locked mutex has
  no step.
\<close>

definition chargePoint_step ::
  "('u, 'h) PointService \<Rightarrow> int \<Rightarrow> int \<Rightarrow> number \<Rightarrow> number \<Rightarrow> stage \<Rightarrow>
     ('u, 'h) world \<Rightarrow> nat set \<Rightarrow> (stage \<times> ('u, 'h) world \<times> nat set) option" where
  "chargePoint_step this tInsert tReturn userId amount st w held =
     (case st of
        Called \<Rightarrow>
          if \<not> Number_isInteger userId \<or> le_zero userId
          then Some (Settled (Inl (InvalidArgument InvalidId)), w, held)
          else if \<not> Number_isInteger amount \<or> le_zero amount
          then Some (Settled (Inl (InvalidArgument InvalidChargeAmount)), w, held)
          else (case getMutexForUser (to_int userId) w of
                  (None, w1) \<Rightarrow> Some (Settled (Inl TypeError), w1, held)
                | (Some mutex, w1) \<Rightarrow> Some (Queued mutex, w1, held))
      | Queued mutex \<Rightarrow>
          if mutex \<in> held then None else Some (Selecting mutex, w, insert mutex held)
      | Selecting mutex \<Rightarrow>
          (case on_db (on_users (selectById (userDb this) (to_int userId))) w of
             (Inl e, w1) \<Rightarrow> Some (Leaving mutex (Inl e), w1, held)
           | (Inr userPoint, w1) \<Rightarrow>
               let updatedPoint = nearest (point userPoint + to_int amount) in
               if updatedPoint > chargeLimit this
               then Some (Leaving mutex (Inl (LimitExceeded (chargeLimit this))), w1, held)
               else Some (Updating mutex updatedPoint, w1, held))
      | Updating mutex updatedPoint \<Rightarrow>
          (case on_db (on_users (insertOrUpdate (userDb this) (to_int userId) updatedPoint)) w of
             (Inl e, w1) \<Rightarrow> Some (Leaving mutex (Inl e), w1, held)
           | (Inr _, w1) \<Rightarrow> Some (Inserting mutex updatedPoint, w1, held))
      | Inserting mutex updatedPoint \<Rightarrow>
          (case on_db (on_histories
                  (insert_row (historyDb this) (to_int userId) (to_int amount) CHARGE tInsert)) w of
             (Inl e, w1) \<Rightarrow> Some (Leaving mutex (Inl e), w1, held)
           | (Inr _, w1) \<Rightarrow> Some (Leaving mutex (Inr updatedPoint), w1, held))
      | Leaving mutex r \<Rightarrow>
          Some (Settled (case r of Inl e \<Rightarrow> Inl e
                         | Inr updatedPoint \<Rightarrow>
                             Inr \<lparr>u_id = to_int userId, point = updatedPoint,
                                  updateMillis = tReturn\<rparr>),
                w, held - {mutex})
      | Settled r \<Rightarrow> None)"

definition usePoint_step ::
  "('u, 'h) PointService \<Rightarrow> int \<Rightarrow> int \<Rightarrow> number \<Rightarrow> number \<Rightarrow> stage \<Rightarrow>
     ('u, 'h) world \<Rightarrow> nat set \<Rightarrow> (stage \<times> ('u, 'h) world \<times> nat set) option" where
  "usePoint_step this tInsert tReturn userId amount st w held =
     (case st of
        Called \<Rightarrow>
          if \<not> Number_isInteger userId \<or> le_zero userId
          then Some (Settled (Inl (InvalidArgument InvalidId)), w, held)
          else if \<not> Number_isInteger amount \<or> le_zero amount
          then Some (Settled (Inl (InvalidArgument InvalidUseAmount)), w, held)
          else (case getMutexForUser (to_int userId) w of
                  (None, w1) \<Rightarrow> Some (Settled (Inl TypeError), w1, held)
                | (Some mutex, w1) \<Rightarrow> Some (Queued mutex, w1, held))
      | Queued mutex \<Rightarrow>
          if mutex \<in> held then None else Some (Selecting mutex, w, insert mutex held)
      | Selecting mutex \<Rightarrow>
          (case on_db (on_users (selectById (userDb this) (to_int userId))) w of
             (Inl e, w1) \<Rightarrow> Some (Leaving mutex (Inl e), w1, held)
           | (Inr userPoint, w1) \<Rightarrow>
               let updatedPoint = nearest (point userPoint - to_int amount) in
               if updatedPoint < 0
               then Some (Leaving mutex (Inl InsufficientPoint), w1, held)
               else Some (Updating mutex updatedPoint, w1, held))
      | Updating mutex updatedPoint \<Rightarrow>
          (case on_db (on_users (insertOrUpdate (userDb this) (to_int userId) updatedPoint)) w of
             (Inl e, w1) \<Rightarrow> Some (Leaving mutex (Inl e), w1, held)
           | (Inr _, w1) \<Rightarrow> Some (Inserting mutex updatedPoint, w1, held))
      | Inserting mutex updatedPoint \<Rightarrow>
          (case on_db (on_histories
                  (insert_row (historyDb this) (to_int userId) (to_int amount) USE tInsert)) w of
             (Inl e, w1) \<Rightarrow> Some (Leaving mutex (Inl e), w1, held)
           | (Inr _, w1) \<Rightarrow> Some (Leaving mutex (Inr updatedPoint), w1, held))
      | Leaving mutex r \<Rightarrow>
          Some (Settled (case r of Inl e \<Rightarrow> Inl e
                         | Inr updatedPoint \<Rightarrow>
                             Inr \<lparr>u_id = to_int userId, point = updatedPoint,
                                  updateMillis = tReturn\<rparr>),
                w, held - {mutex})
      | Settled r \<Rightarrow> None)"

text \<open>
  A request: which of the two operations, with which amount, and the two clock readings
  its call will take. All requests considered together are for one user id.
\<close>

record request =
  r_op :: TransactionType
  r_amount :: number
  r_tInsert :: int
  r_tReturn :: int

definition request_step ::
  "('u, 'h) PointService \<Rightarrow> number \<Rightarrow> request \<Rightarrow> stage \<Rightarrow>
     ('u, 'h) world \<Rightarrow> nat set \<Rightarrow> (stage \<times> ('u, 'h) world \<times> nat set) option" where
  "request_step this userId c =
     (case r_op c of
        CHARGE \<Rightarrow> chargePoint_step this (r_tInsert c) (r_tReturn c) userId (r_amount c)
      | USE \<Rightarrow> usePoint_step this (r_tInsert c) (r_tReturn c) userId (r_amount c))"

text \<open>The same request as one call that runs with no other call in flight.\<close>

definition perform ::
  "('u, 'h) PointService \<Rightarrow> number \<Rightarrow> request \<Rightarrow> (('u, 'h) world, UserPoint) promise" where
  "perform this userId c =
     (case r_op c of
        CHARGE \<Rightarrow> chargePoint this (r_tInsert c) (r_tReturn c) userId (r_amount c)
      | USE \<Rightarrow> usePoint this (r_tInsert c) (r_tReturn c) userId (r_amount c))"

fun one_by_one ::
  "('u, 'h) PointService \<Rightarrow> number \<Rightarrow> request list \<Rightarrow> ('u, 'h) world \<Rightarrow>
     (error + UserPoint) list \<times> ('u, 'h) world" where
  "one_by_one this userId [] w = ([], w)"
| "one_by_one this userId (c # cs) w =
     (case perform this userId c w of (r, w1) \<Rightarrow>
        (case one_by_one this userId cs w1 of (rs, w2) \<Rightarrow> (r # rs, w2)))"

text \<open>
  The concurrent system: the state of the service, the locked mutexes, the stage of each
  call, and the order in which calls have been granted a mutex.
\<close>

record ('u, 'h) system =
  sys_world :: "('u, 'h) world"
  sys_held :: "nat set"
  sys_stages :: "stage list"
  sys_grants :: "nat list"

definition start :: "request list \<Rightarrow> ('u, 'h) world \<Rightarrow> ('u, 'h) system" where
  "start cs w =
     \<lparr> sys_world = w, sys_held = {}, sys_stages = replicate (length cs) Called, sys_grants = [] \<rparr>"

definition is_Queued :: "stage \<Rightarrow> bool" where
  "is_Queued st = (case st of Queued m \<Rightarrow> True | _ \<Rightarrow> False)"

text \<open>Call \<open>i\<close> takes its next step, if it has one.\<close>

definition advance ::
  "('u, 'h) PointService \<Rightarrow> number \<Rightarrow> request list \<Rightarrow> nat \<Rightarrow> ('u, 'h) system \<Rightarrow> ('u, 'h) system" where
  "advance this userId cs i s =
     (if i < length cs \<and> i < length (sys_stages s)
      then (case request_step this userId (cs ! i) (sys_stages s ! i) (sys_world s) (sys_held s) of
              None \<Rightarrow> s
            | Some (st, w, held) \<Rightarrow>
                \<lparr> sys_world = w, sys_held = held, sys_stages = (sys_stages s)[i := st],
                  sys_grants = (if is_Queued (sys_stages s ! i) then sys_grants s @ [i]
                                else sys_grants s) \<rparr>)
      else s)"

text \<open>A schedule names, step after step, the call that runs next.\<close>

fun interleave ::
  "('u, 'h) PointService \<Rightarrow> number \<Rightarrow> request list \<Rightarrow> nat list \<Rightarrow> ('u, 'h) system \<Rightarrow>
     ('u, 'h) system" where
  "interleave this userId cs [] s = s"
| "interleave this userId cs (i # sched) s =
     interleave this userId cs sched (advance this userId cs i s)"

definition in_section :: "stage \<Rightarrow> bool" where
  "in_section st = (case st of Selecting m \<Rightarrow> True | Updating m p \<Rightarrow> True
                    | Inserting m p \<Rightarrow> True | Leaving m r \<Rightarrow> True | _ \<Rightarrow> False)"

definition is_Settled :: "stage \<Rightarrow> bool" where
  "is_Settled st = (case st of Settled r \<Rightarrow> True | _ \<Rightarrow> False)"

definition is_fulfilled :: "stage \<Rightarrow> bool" where
  "is_fulfilled st = (case st of Settled (Inr r) \<Rightarrow> True | _ \<Rightarrow> False)"


text \<open>
  What is left of the critical section of a call that is inside it, as one run on the two
  tables; and the settlement of the call that follows from the settlement of its section.
\<close>

definition mutex_of :: "stage \<Rightarrow> nat option" where
  "mutex_of st = (case st of Queued m \<Rightarrow> Some m | Selecting m \<Rightarrow> Some m | Updating m p \<Rightarrow> Some m
                  | Inserting m p \<Rightarrow> Some m | Leaving m r \<Rightarrow> Some m | _ \<Rightarrow> None)"

definition section_rest ::
  "('u, 'h) PointService \<Rightarrow> number \<Rightarrow> request \<Rightarrow> stage \<Rightarrow> (('u, 'h) tables, int) promise" where
  "section_rest this userId c st =
     (case st of
        Selecting m \<Rightarrow>
          await (on_users (selectById (userDb this) (to_int userId))) (\<lambda>userPoint.
            case r_op c of
              CHARGE \<Rightarrow>
                (let updatedPoint = nearest (point userPoint + to_int (r_amount c)) in
                 if updatedPoint > chargeLimit this
                 then reject (LimitExceeded (chargeLimit this))
                 else
                   await (on_users (insertOrUpdate (userDb this) (to_int userId) updatedPoint)) (\<lambda>_.
                   await (on_histories (insert_row (historyDb this) (to_int userId)
                            (to_int (r_amount c)) CHARGE (r_tInsert c))) (\<lambda>_.
                   resolve updatedPoint)))
            | USE \<Rightarrow>
                (let updatedPoint = nearest (point userPoint - to_int (r_amount c)) in
                 if updatedPoint < 0
                 then reject InsufficientPoint
                 else
                   await (on_users (insertOrUpdate (userDb this) (to_int userId) updatedPoint)) (\<lambda>_.
                   await (on_histories (insert_row (historyDb this) (to_int userId)
                            (to_int (r_amount c)) USE (r_tInsert c))) (\<lambda>_.
                   resolve updatedPoint))))
      | Updating m p \<Rightarrow>
          await (on_users (insertOrUpdate (userDb this) (to_int userId) p)) (\<lambda>_.
          await (on_histories (insert_row (historyDb this) (to_int userId)
                   (to_int (r_amount c)) (r_op c) (r_tInsert c))) (\<lambda>_.
          resolve p))
      | Inserting m p \<Rightarrow>
          await (on_histories (insert_row (historyDb this) (to_int userId)
                   (to_int (r_amount c)) (r_op c) (r_tInsert c))) (\<lambda>_.
          resolve p)
      | Leaving m r \<Rightarrow> (\<lambda>d. (r, d))
      | _ \<Rightarrow> reject TypeError)"

definition settle :: "number \<Rightarrow> request \<Rightarrow> error + int \<Rightarrow> error + UserPoint" where
  "settle userId c r =
     (case r of Inl e \<Rightarrow> Inl e
      | Inr p \<Rightarrow> Inr \<lparr>u_id = to_int userId, point = p, updateMillis = r_tReturn c\<rparr>)"

definition outcome ::
  "('u, 'h) PointService \<Rightarrow> number \<Rightarrow> request \<Rightarrow> stage \<Rightarrow> ('u, 'h) tables \<Rightarrow> error + UserPoint" where
  "outcome this userId c st d =
     (case st of Settled r \<Rightarrow> r | _ \<Rightarrow> settle userId c (fst (section_rest this userId c st d)))"

definition valid_request :: "number \<Rightarrow> request \<Rightarrow> bool" where
  "valid_request userId c \<longleftrightarrow>
     (Number_isInteger userId \<and> \<not> le_zero userId) \<and>
     (Number_isInteger (r_amount c) \<and> \<not> le_zero (r_amount c))"

definition invalid_error :: "number \<Rightarrow> request \<Rightarrow> error" where
  "invalid_error userId c =
     (if \<not> Number_isInteger userId \<or> le_zero userId then InvalidArgument InvalidId
      else case r_op c of CHARGE \<Rightarrow> InvalidArgument InvalidChargeAmount
           | USE \<Rightarrow> InvalidArgument InvalidUseAmount)"

definition pending_db ::
  "('u, 'h) PointService \<Rightarrow> number \<Rightarrow> request list \<Rightarrow> ('u, 'h) system \<Rightarrow> ('u, 'h) tables" where
  "pending_db this userId cs s =
     (if sys_grants s \<noteq> [] \<and> in_section (sys_stages s ! last (sys_grants s))
      then snd (section_rest this userId (cs ! last (sys_grants s))
                  (sys_stages s ! last (sys_grants s)) (db (sys_world s)))
      else db (sys_world s))"

definition sys_inv ::
  "('u, 'h) PointService \<Rightarrow> number \<Rightarrow> request list \<Rightarrow> ('u, 'h) world \<Rightarrow> ('u, 'h) system \<Rightarrow> bool" where
  "sys_inv this userId cs w0 s \<longleftrightarrow>
     length (sys_stages s) = length cs
   \<and> distinct (sys_grants s)
   \<and> (\<forall>i<length cs. \<forall>m. mutex_of (sys_stages s ! i) = Some m \<longrightarrow>
         locks (sys_world s) (to_int userId) = Some m)
   \<and> (\<forall>i<length cs. in_section (sys_stages s ! i) \<longrightarrow>
         sys_grants s \<noteq> [] \<and> last (sys_grants s) = i \<and>
         (\<exists>m. mutex_of (sys_stages s ! i) = Some m \<and> m \<in> sys_held s))
   \<and> (\<forall>i<length cs. \<not> valid_request userId (cs ! i) \<longrightarrow>
         sys_stages s ! i = Called \<or>
         sys_stages s ! i = Settled (Inl (invalid_error userId (cs ! i))))
   \<and> (\<forall>i. i \<in> set (sys_grants s) \<longleftrightarrow>
         i < length cs \<and> valid_request userId (cs ! i) \<and>
         (in_section (sys_stages s ! i) \<or> is_Settled (sys_stages s ! i)))
   \<and> fst (one_by_one this userId (map ((!) cs) (sys_grants s)) w0) =
       map (\<lambda>i. outcome this userId (cs ! i) (sys_stages s ! i) (db (sys_world s))) (sys_grants s)
   \<and> db (snd (one_by_one this userId (map ((!) cs) (sys_grants s)) w0)) =
       pending_db this userId cs s"


text \<open>A bound on the stored balance of the user that also holds for every value a call
  is about to write.\<close>

definition bounded :: "(int \<Rightarrow> bool) \<Rightarrow> number \<Rightarrow> (user_table, 'h) system \<Rightarrow> bool" where
  "bounded P userId s \<longleftrightarrow>
     P (balance (sys_world s) (to_int userId)) \<and>
     (\<forall>st\<in>set (sys_stages s). \<forall>m p. st = Updating m p \<longrightarrow> P p)"

text \<open>
  How many steps a call has left at most, and the fact that a locked mutex is the mutex of
  a call inside its critical section.
\<close>

definition remaining :: "stage \<Rightarrow> nat" where
  "remaining st = (case st of Called \<Rightarrow> 6 | Queued m \<Rightarrow> 5 | Selecting m \<Rightarrow> 4
                   | Updating m p \<Rightarrow> 3 | Inserting m p \<Rightarrow> 2 | Leaving m r \<Rightarrow> 1
                   | Settled r \<Rightarrow> 0)"

definition held_by_someone :: "request list \<Rightarrow> ('u, 'h) system \<Rightarrow> bool" where
  "held_by_someone cs s \<longleftrightarrow>
     (\<forall>m\<in>sys_held s. \<exists>i<length cs. in_section (sys_stages s ! i) \<and>
        mutex_of (sys_stages s ! i) = Some m)"


section \<open>Rounding\<close>

lemma ulp_pos [simp]: "0 < ulp x"
  by (simp add: ulp_def)

lemma ulp_nonneg [simp]: "0 \<le> ulp x"
  by (simp add: ulp_def)

lemma ulp_nonzero [simp]: "ulp x \<noteq> 0"
  by (simp add: ulp_def)

lemma ulp_small: "\<bar>x\<bar> < 2 ^ 53 \<Longrightarrow> ulp x = 1"
proof -
  assume "\<bar>x\<bar> < 2 ^ 53"
  then have "bitlen \<bar>x\<bar> \<le> 53" by (simp add: bitlen_le_iff_power)
  then show ?thesis by (simp add: ulp_def)
qed

lemma ulp_dvd: "\<bar>x\<bar> \<le> \<bar>y\<bar> \<Longrightarrow> ulp x dvd ulp y"
proof -
  assume a: "\<bar>x\<bar> \<le> \<bar>y\<bar>"
  have "bitlen \<bar>x\<bar> \<le> bitlen \<bar>y\<bar>"
    using a bitlen_le_iff_power [of "\<bar>x\<bar>" "bitlen \<bar>y\<bar>"]
      bitlen_le_iff_power [of "\<bar>y\<bar>" "bitlen \<bar>y\<bar>"] bitlen_nonneg [of "\<bar>y\<bar>"]
    by auto
  then have "nat (bitlen \<bar>x\<bar> - 53) \<le> nat (bitlen \<bar>y\<bar> - 53)" by simp
  then show ?thesis unfolding ulp_def by (rule le_imp_power_dvd)
qed

lemma nearest_exact: "significand_fits x \<Longrightarrow> nearest x = x"
proof -
  assume "significand_fits x"
  then have m: "x mod ulp x = 0" by (simp add: significand_fits_def)
  then have "x div ulp x * ulp x = x" by (metis add.right_neutral div_mult_mod_eq)
  with m show ?thesis by (simp add: nearest_def Let_def)
qed

lemma fits_small: "\<bar>x\<bar> \<le> 2 ^ 53 \<Longrightarrow> significand_fits x"
proof (cases "\<bar>x\<bar> < 2 ^ 53")
  case True
  then show ?thesis by (simp add: significand_fits_def ulp_small)
next
  case False
  assume "\<bar>x\<bar> \<le> 2 ^ 53"
  with False have a: "\<bar>x\<bar> = 2 ^ 53" by simp
  have "bitlen ((2::int) ^ 53) = 54" using bitlen_twopow_add_eq [of 0 53] by simp
  then have "ulp x = 2" using a by (simp add: ulp_def)
  moreover from a have "x = 2 ^ 53 \<or> x = - (2 ^ 53)" by linarith
  ultimately show ?thesis by (auto simp: significand_fits_def)
qed

lemma nearest_small: "\<bar>x\<bar> \<le> 2 ^ 53 \<Longrightarrow> nearest x = x"
  by (rule nearest_exact [OF fits_small])

lemma representable_small: "\<bar>x\<bar> \<le> 2 ^ 53 \<Longrightarrow> representable x"
proof -
  assume a: "\<bar>x\<bar> \<le> 2 ^ 53"
  have "(2::int) ^ 53 < 2 ^ 1024" by (rule power_strict_increasing) simp_all
  with a fits_small [OF a] show ?thesis by (simp add: representable_def)
qed

text \<open>\<open>nearest x\<close> is one of the two multiples of \<open>ulp x\<close> around \<open>x\<close>.\<close>

lemma nearest_cases:
  "nearest x = x div ulp x * ulp x \<or>
   (nearest x = (x div ulp x + 1) * ulp x \<and> 0 < x mod ulp x)"
proof -
  have "0 < ulp x" by simp
  then show ?thesis
    by (cases "x mod ulp x = 0") (auto simp: nearest_def Let_def less_le)
qed

lemma floor_multiple: "x div ulp x * ulp x \<le> x"
proof -
  have "x = x div ulp x * ulp x + x mod ulp x" by simp
  moreover have "0 \<le> x mod ulp x" by simp
  ultimately show ?thesis by linarith
qed

lemma ceil_multiple: "x < (x div ulp x + 1) * ulp x"
proof -
  have "x = x div ulp x * ulp x + x mod ulp x" by simp
  moreover have "x mod ulp x < ulp x" by simp
  moreover have "(x div ulp x + 1) * ulp x = x div ulp x * ulp x + ulp x"
    by (simp add: distrib_right)
  ultimately show ?thesis by linarith
qed

lemma nearest_nonneg: "0 \<le> x \<Longrightarrow> 0 \<le> nearest x"
proof -
  assume "0 \<le> x"
  then have d: "0 \<le> x div ulp x" by (simp add: pos_imp_zdiv_nonneg_iff)
  then have "0 \<le> x div ulp x * ulp x" by simp
  moreover from d have "0 \<le> (x div ulp x + 1) * ulp x" by simp
  ultimately show ?thesis using nearest_cases [of x] by auto
qed

lemma ulp_le_abs: "x \<noteq> 0 \<Longrightarrow> ulp x \<le> \<bar>x\<bar>"
proof (cases "\<bar>x\<bar> < 2 ^ 53")
  case True
  assume "x \<noteq> 0"
  with True show ?thesis by (simp add: ulp_small)
next
  case False
  have pos: "0 < \<bar>x\<bar>" using False by (smt (verit) zero_less_power)
  from bitlen_bounds [OF pos] have "2 ^ nat (bitlen \<bar>x\<bar> - 1) \<le> \<bar>x\<bar>" ..
  moreover have "(2::int) ^ nat (bitlen \<bar>x\<bar> - 53) \<le> 2 ^ nat (bitlen \<bar>x\<bar> - 1)"
    by (rule power_increasing) simp_all
  ultimately show ?thesis unfolding ulp_def by (rule order_trans [rotated])
qed

lemma nearest_neg: "x < 0 \<Longrightarrow> nearest x < 0"
proof -
  assume x: "x < 0"
  let ?q = "ulp x"
  let ?d = "x div ?q"
  from ulp_le_abs [of x] x have le: "x \<le> - ?q" by simp
  have d: "?d < 0" using x by (simp add: div_neg_pos_less0)
  then have low: "?d * ?q < 0" by (simp add: mult_neg_pos)
  from nearest_cases [of x] show ?thesis
  proof
    assume "nearest x = ?d * ?q"
    with low show ?thesis by simp
  next
    assume a: "nearest x = (?d + 1) * ?q \<and> 0 < x mod ?q"
    have "?d \<noteq> - 1"
    proof
      assume m: "?d = - 1"
      have "x = ?d * ?q + x mod ?q" by simp
      with m a have "- ?q < x" by simp
      with le show False by simp
    qed
    with d have "?d + 1 < 0" by simp
    then have "(?d + 1) * ?q < 0" by (simp add: mult_neg_pos)
    with a show ?thesis by simp
  qed
qed

lemma nearest_le:
  assumes "0 \<le> x" and "x \<le> b" and "significand_fits b"
  shows "nearest x \<le> b"
proof -
  let ?q = "ulp x"
  let ?d = "x div ?q"
  have "\<bar>x\<bar> \<le> \<bar>b\<bar>" using assms(1,2) by simp
  from ulp_dvd [OF this] have "?q dvd ulp b" .
  moreover have "ulp b dvd b" using assms(3) by (simp add: significand_fits_def dvd_eq_mod_eq_0)
  ultimately have "?q dvd b" by (rule dvd_trans)
  then obtain m where b: "m * ?q = b" by (auto simp: dvd_def mult.commute)
  from nearest_cases [of x] show ?thesis
  proof
    assume "nearest x = ?d * ?q"
    with floor_multiple [of x] assms(2) show ?thesis by simp
  next
    assume a: "nearest x = (?d + 1) * ?q \<and> 0 < x mod ?q"
    have "x = ?d * ?q + x mod ?q" by simp
    with a have "?d * ?q < x" by linarith
    with assms(2) have "?d * ?q < b" by linarith
    then have "?d * ?q < m * ?q" by (simp only: b)
    then have "?d < m" using ulp_pos [of x] by (simp only: mult_less_cancel_right_pos)
    then have "?d + 1 \<le> m" by simp
    then have "(?d + 1) * ?q \<le> m * ?q" by (rule mult_right_mono) simp
    with a show ?thesis by (simp only: b)
  qed
qed

lemma nearest_multiple: "ulp x dvd nearest x"
  using nearest_cases [of x] by auto

lemma nearest_fits: "significand_fits (nearest x)"
proof -
  let ?q = "ulp x"
  let ?d = "x div ?q"
  let ?b = "bitlen \<bar>x\<bar>"
  let ?N = "(2::int) ^ nat ?b"
  let ?y = "nearest x"
  have b0: "0 \<le> ?b" by (rule bitlen_nonneg)
  have lt: "\<bar>x\<bar> < ?N" using bitlen_le_iff_power [of "\<bar>x\<bar>" ?b] by simp
  have "nat (?b - 53) \<le> nat ?b" by simp
  then have "?q dvd ?N" unfolding ulp_def by (rule le_imp_power_dvd)
  then obtain n where n: "n * ?q = ?N" by (auto simp: dvd_def mult.commute)
  have q: "0 < ?q" by simp
  have up: "(?d + 1) * ?q \<le> ?N"
  proof -
    have "?d * ?q < n * ?q" using floor_multiple [of x] lt n by linarith
    then have "?d < n" using q by (simp only: mult_less_cancel_right_pos)
    then have "?d + 1 \<le> n" by simp
    then have "(?d + 1) * ?q \<le> n * ?q" by (rule mult_right_mono) simp
    then show ?thesis by (simp only: n)
  qed
  have low: "- ?N \<le> ?d * ?q"
  proof -
    have "- n * ?q < (?d + 1) * ?q" using ceil_multiple [of x] lt n by (simp only: mult_minus_left)
    then have "- n < ?d + 1" using q by (simp only: mult_less_cancel_right_pos)
    then have "- n \<le> ?d" by simp
    then have "- n * ?q \<le> ?d * ?q" by (rule mult_right_mono) simp
    then show ?thesis using n by (simp only: mult_minus_left)
  qed
  have mid: "?d * ?q \<le> (?d + 1) * ?q" by (rule mult_right_mono) simp_all
  have "?y = ?d * ?q \<or> ?y = (?d + 1) * ?q" using nearest_cases [of x] by blast
  then have bound: "\<bar>?y\<bar> \<le> ?N"
  proof
    assume "?y = ?d * ?q"
    with up low mid show ?thesis by linarith
  next
    assume "?y = (?d + 1) * ?q"
    with up low mid show ?thesis by linarith
  qed
  show ?thesis
  proof (cases "\<bar>?y\<bar> < ?N")
    case True
    then have "bitlen \<bar>?y\<bar> \<le> ?b" using b0 by (simp add: bitlen_le_iff_power)
    then have "nat (bitlen \<bar>?y\<bar> - 53) \<le> nat (?b - 53)" by simp
    then have "ulp ?y dvd ?q" unfolding ulp_def by (rule le_imp_power_dvd)
    then have "ulp ?y dvd ?y" using nearest_multiple [of x] by (rule dvd_trans)
    then show ?thesis by (simp add: significand_fits_def dvd_eq_mod_eq_0)
  next
    case False
    with bound have e: "\<bar>?y\<bar> = ?N" by simp
    have "bitlen ((2::int) ^ nat ?b) = int (nat ?b) + 1"
      using bitlen_twopow_add_eq [of 0 "nat ?b"] by simp
    then have "bitlen \<bar>?y\<bar> = ?b + 1" using e b0 by simp
    then have "ulp ?y = 2 ^ nat (?b + 1 - 53)" by (simp add: ulp_def)
    moreover have "(2::int) ^ nat (?b + 1 - 53) dvd 2 ^ nat ?b" by (rule le_imp_power_dvd) simp
    ultimately have "ulp ?y dvd \<bar>?y\<bar>" using e by simp
    then have "ulp ?y dvd ?y" by (simp only: dvd_abs_iff)
    then show ?thesis by (simp add: significand_fits_def dvd_eq_mod_eq_0)
  qed
qed

lemma nearest_representable: "representable x \<Longrightarrow> nearest x = x"
  by (simp add: representable_def nearest_exact)

text \<open>The examples of the text: the doubles around \<open>2 ^ 53\<close> and \<open>2 ^ 54\<close>.\<close>

lemma nearest_examples:
  "nearest (2 ^ 53 + 1) = 2 ^ 53"
  "nearest (2 ^ 53 + 3) = 2 ^ 53 + 4"
  "nearest (2 ^ 54 - 1) = 2 ^ 54"
  "nearest (- (2 ^ 53) - 1) = - (2 ^ 53)"
  "nearest (2 ^ 1024 - 2 ^ 970) = 2 ^ 1024"
  by code_simp+

lemma representable_examples:
  "representable (10 ^ 17)"
  "\<not> representable (2 ^ 53 + 1)"
  "\<not> representable (2 ^ 54 - 1)"
  by code_simp+

section \<open>Validation\<close>

lemma isInteger_of_int [simp]: "Number_isInteger (Finite (of_int n))"
  by (simp add: Number_isInteger_def)

lemma le_zero_of_int [simp]: "le_zero (Finite (of_int n)) \<longleftrightarrow> n \<le> 0"
  by (simp add: le_zero_def)

lemma to_int_of_int [simp]: "to_int (Finite (of_int n)) = n"
  by (simp add: to_int_def)

text \<open>The guard of every operation lets through exactly the positive integers.\<close>

lemma positive_integer_iff:
  "Number_isInteger x \<and> \<not> le_zero x \<longleftrightarrow> (\<exists>n>0. x = Finite (of_int n))"
proof (cases x)
  case (Finite q)
  show ?thesis
  proof
    assume a: "Number_isInteger x \<and> \<not> le_zero x"
    with Finite have q: "of_int \<lfloor>q\<rfloor> = q" and p: "0 < q"
      by (simp_all add: Number_isInteger_def le_zero_def)
    from p q have "0 < \<lfloor>q\<rfloor>" by (metis of_int_0_less_iff)
    with q Finite show "\<exists>n>0. x = Finite (of_int n)" by metis
  next
    assume "\<exists>n>0. x = Finite (of_int n)"
    then show "Number_isInteger x \<and> \<not> le_zero x"
      by (auto simp: Number_isInteger_def le_zero_def)
  qed
qed (auto simp: Number_isInteger_def le_zero_def)

lemma not_positive_integer_examples:
  "\<not> (\<exists>n>0. Finite 0 = Finite (rat_of_int n))"
  "\<not> (\<exists>n>0. Finite (- 1) = Finite (rat_of_int n))"
  "\<not> (\<exists>n>0. Finite (3 / 2) = Finite (rat_of_int n))"
  "\<not> (\<exists>n>0. NaN = Finite (rat_of_int n))"
  "\<not> (\<exists>n>0. Infinity = Finite (rat_of_int n))"
  "\<not> (\<exists>n>0. NegInfinity = Finite (rat_of_int n))"
proof -
  show "\<not> (\<exists>n>0. Finite 0 = Finite (rat_of_int n))" by simp
  show "\<not> (\<exists>n>0. Finite (- 1) = Finite (rat_of_int n))"
    using positive_integer_iff [of "Finite (- 1)"] by (simp add: le_zero_def)
  show "\<not> (\<exists>n>0. Finite (3 / 2) = Finite (rat_of_int n))"
  proof -
    have "\<lfloor>3 / 2 :: rat\<rfloor> = 1" by (rule floor_unique) simp_all
    then have "\<not> Number_isInteger (Finite (3 / 2))" by (simp add: Number_isInteger_def)
    then show ?thesis using positive_integer_iff [of "Finite (3 / 2)"] by blast
  qed
qed simp_all

section \<open>The guarded operations in terms of the unguarded ones\<close>

lemmas run_defs = await_def resolve_def reject_def on_db_def on_users_def on_histories_def
  runExclusive_def Let_def

lemma getMutexForUser_fst: "\<exists>m. fst (getMutexForUser u w) = Some m"
  by (auto simp: getMutexForUser_def Let_def)

lemma getMutexForUser_db [simp]: "db (snd (getMutexForUser u w)) = db w"
  by (simp add: getMutexForUser_def Let_def)

lemma chargePoint_unfold:
  "chargePoint this tI tR userId amount w =
     (case chargePoint_nolock this tI tR userId amount (db w) of
        (r, d) \<Rightarrow> (r, (if (Number_isInteger userId \<and> \<not> le_zero userId) \<and>
                           (Number_isInteger amount \<and> \<not> le_zero amount)
                        then snd (getMutexForUser (to_int userId) w) else w)\<lparr>db := d\<rparr>))"
proof -
  obtain m w1 where g: "getMutexForUser (to_int userId) w = (Some m, w1)"
    using getMutexForUser_fst [of "to_int userId" w] by (cases "getMutexForUser (to_int userId) w") auto
  have d: "db w1 = db w" using getMutexForUser_db [of "to_int userId" w] g by simp
  show ?thesis
    by (simp add: chargePoint_def chargePoint_nolock_def g d run_defs
        split: prod.splits sum.splits)
qed

lemma usePoint_unfold:
  "usePoint this tI tR userId amount w =
     (case usePoint_nolock this tI tR userId amount (db w) of
        (r, d) \<Rightarrow> (r, (if (Number_isInteger userId \<and> \<not> le_zero userId) \<and>
                           (Number_isInteger amount \<and> \<not> le_zero amount)
                        then snd (getMutexForUser (to_int userId) w) else w)\<lparr>db := d\<rparr>))"
proof -
  obtain m w1 where g: "getMutexForUser (to_int userId) w = (Some m, w1)"
    using getMutexForUser_fst [of "to_int userId" w] by (cases "getMutexForUser (to_int userId) w") auto
  have d: "db w1 = db w" using getMutexForUser_db [of "to_int userId" w] g by simp
  show ?thesis
    by (simp add: usePoint_def usePoint_nolock_def g d run_defs
        split: prod.splits sum.splits)
qed

lemma chargePoint_invalid:
  "\<not> ((Number_isInteger userId \<and> \<not> le_zero userId) \<and> (Number_isInteger amount \<and> \<not> le_zero amount))
   \<Longrightarrow> \<exists>m. chargePoint this tI tR userId amount w = (Inl (InvalidArgument m), w)"
  by (auto simp: chargePoint_def reject_def)

lemma usePoint_invalid:
  "\<not> ((Number_isInteger userId \<and> \<not> le_zero userId) \<and> (Number_isInteger amount \<and> \<not> le_zero amount))
   \<Longrightarrow> \<exists>m. usePoint this tI tR userId amount w = (Inl (InvalidArgument m), w)"
  by (auto simp: usePoint_def reject_def)

section \<open>The operations on the in-memory tables\<close>

lemma stored_calls [simp]: "stored (t\<lparr>calls := c\<rparr>) i = stored t i"
  by (simp add: stored_def split: option.splits)

lemma stored_rows [simp]:
  "stored (t\<lparr>rows := (rows t)(u \<mapsto> r)\<rparr>) v = (if v = u then r else stored t v)"
  by (simp add: stored_def split: option.splits)

lemma insert_row_mem:
  "insert_row inMemoryPointHistoryTable u a ty ms t =
     (Inr \<lparr>h_id = cursor t, h_userId = u, h_amount = a, h_type = ty, h_timeMillis = ms\<rparr>,
      t\<lparr>entries := entries t @
           [\<lparr>h_id = cursor t, h_userId = u, h_amount = a, h_type = ty, h_timeMillis = ms\<rparr>],
        cursor := cursor t + 1,
        hcalls := hcalls t @ [Insert u a ty ms]\<rparr>)"
  by (simp add: inMemoryPointHistoryTable_def)

lemma chargePoint_nolock_mem:
  assumes "0 < u" and "0 < a"
  shows "chargePoint_nolock \<lparr>userDb = inMemoryUserPointTable, historyDb = H, chargeLimit = limit\<rparr>
           tI tR (Finite (of_int u)) (Finite (of_int a)) d =
    (if nearest (point (stored (users d) u) + a) > limit
     then (Inl (LimitExceeded limit), d\<lparr>users := (users d)\<lparr>calls := calls (users d) @ [SelectById u]\<rparr>\<rparr>)
     else case insert_row H u a CHARGE tI (histories d) of
       (r, h) \<Rightarrow>
         (case r of Inl e \<Rightarrow> Inl e
          | Inr _ \<Rightarrow> Inr \<lparr>u_id = u, point = nearest (point (stored (users d) u) + a),
                         updateMillis = tR\<rparr>,
          \<lparr>users = (users d)
             \<lparr>rows := (rows (users d))
                (u \<mapsto> \<lparr>u_id = u, point = nearest (point (stored (users d) u) + a),
                       updateMillis = clock (users d)\<rparr>),
              calls := calls (users d) @
                [SelectById u, InsertOrUpdate u (nearest (point (stored (users d) u) + a))]\<rparr>,
           histories = h\<rparr>))"
  using assms
  by (cases d) (simp add: chargePoint_nolock_def inMemoryUserPointTable_def run_defs
      split: prod.splits sum.splits)

lemma usePoint_nolock_mem:
  assumes "0 < u" and "0 < a"
  shows "usePoint_nolock \<lparr>userDb = inMemoryUserPointTable, historyDb = H, chargeLimit = limit\<rparr>
           tI tR (Finite (of_int u)) (Finite (of_int a)) d =
    (if nearest (point (stored (users d) u) - a) < 0
     then (Inl InsufficientPoint, d\<lparr>users := (users d)\<lparr>calls := calls (users d) @ [SelectById u]\<rparr>\<rparr>)
     else case insert_row H u a USE tI (histories d) of
       (r, h) \<Rightarrow>
         (case r of Inl e \<Rightarrow> Inl e
          | Inr _ \<Rightarrow> Inr \<lparr>u_id = u, point = nearest (point (stored (users d) u) - a),
                         updateMillis = tR\<rparr>,
          \<lparr>users = (users d)
             \<lparr>rows := (rows (users d))
                (u \<mapsto> \<lparr>u_id = u, point = nearest (point (stored (users d) u) - a),
                       updateMillis = clock (users d)\<rparr>),
              calls := calls (users d) @
                [SelectById u, InsertOrUpdate u (nearest (point (stored (users d) u) - a))]\<rparr>,
           histories = h\<rparr>))"
  using assms
  by (cases d) (simp add: usePoint_nolock_def inMemoryUserPointTable_def run_defs
      split: prod.splits sum.splits)

lemma chargePoint_mem_fst:
  assumes "0 < u" and "0 < a"
  shows "fst (chargePoint (inMemoryService limit) tI tR (Finite (of_int u)) (Finite (of_int a)) w) =
     (if nearest (balance w u + a) > limit then Inl (LimitExceeded limit)
      else Inr \<lparr>u_id = u, point = nearest (balance w u + a), updateMillis = tR\<rparr>)"
  using assms
  by (simp add: chargePoint_unfold inMemoryService_def chargePoint_nolock_mem insert_row_mem
      balance_def)

lemma chargePoint_mem_balance:
  assumes "0 < u" and "0 < a"
  shows "balance (snd (chargePoint (inMemoryService limit) tI tR
            (Finite (of_int u)) (Finite (of_int a)) w)) v =
     (if nearest (balance w u + a) \<le> limit \<and> v = u then nearest (balance w u + a)
      else balance w v)"
  using assms
  by (simp add: chargePoint_unfold inMemoryService_def chargePoint_nolock_mem insert_row_mem
      balance_def)

lemma usePoint_mem_fst:
  assumes "0 < u" and "0 < a"
  shows "fst (usePoint (inMemoryService limit) tI tR (Finite (of_int u)) (Finite (of_int a)) w) =
     (if nearest (balance w u - a) < 0 then Inl InsufficientPoint
      else Inr \<lparr>u_id = u, point = nearest (balance w u - a), updateMillis = tR\<rparr>)"
  using assms
  by (simp add: usePoint_unfold inMemoryService_def usePoint_nolock_mem insert_row_mem
      balance_def)

lemma usePoint_mem_balance:
  assumes "0 < u" and "0 < a"
  shows "balance (snd (usePoint (inMemoryService limit) tI tR
            (Finite (of_int u)) (Finite (of_int a)) w)) v =
     (if 0 \<le> nearest (balance w u - a) \<and> v = u then nearest (balance w u - a)
      else balance w v)"
  using assms
  by (simp add: usePoint_unfold inMemoryService_def usePoint_nolock_mem insert_row_mem
      balance_def)



lemma getPoint_mem_rows:
  "rows (users (db (snd (getPoint (inMemoryService limit) userId w)))) = rows (users (db w))"
  by (simp add: getPoint_def reject_def on_db_def on_users_def inMemoryService_def
      inMemoryUserPointTable_def)

lemma getHistories_mem_users:
  "users (db (snd (getHistories (inMemoryService limit) userId w))) = users (db w)"
  by (simp add: getHistories_def reject_def on_db_def on_histories_def inMemoryService_def
      inMemoryPointHistoryTable_def)

lemma balance_rows: "rows (users (db w')) = rows (users (db w)) \<Longrightarrow> balance w' v = balance w v"
  by (simp add: balance_def stored_def split: option.splits)

lemma balance_users: "users (db w') = users (db w) \<Longrightarrow> balance w' v = balance w v"
  by (simp add: balance_def)

lemma balance_fresh [simp]: "balance freshWorld i = 0"
  by (simp add: balance_def freshWorld_def stored_def)

lemma balance_seeded [simp]: "balance (seededWorld i p) j = (if j = i then p else 0)"
  by (simp add: balance_def seededWorld_def stored_def)

section \<open>Charging\<close>

text \<open>
  Claim C1, with the condition it needs. For a positive integer user id \<open>u\<close> and a
  positive integer amount \<open>a\<close>, when the stored balance \<open>B\<close> of \<open>u\<close> satisfies
  \<open>B + a \<le> chargeLimit\<close> and \<open>B + a\<close> is a double, \<open>chargePoint\<close> fulfils with the
  record \<open>{id: u, point: B + a}\<close>. The user table has received one \<open>selectById\<close> and
  one \<open>insertOrUpdate(u, B + a)\<close> and holds \<open>B + a\<close> for \<open>u\<close>; the history table has
  received one \<open>insert\<close> and holds one more record, a \<open>CHARGE\<close> of \<open>a\<close> for \<open>u\<close>.
  Nothing else of the two tables has changed.
\<close>

theorem chargePoint_within_limit:
  assumes "0 < u" and "0 < a" and "representable (balance w u + a)"
    and "balance w u + a \<le> limit"
  shows "chargePoint (inMemoryService limit) tInsert tReturn (Finite (of_int u)) (Finite (of_int a)) w =
    (Inr \<lparr>u_id = u, point = balance w u + a, updateMillis = tReturn\<rparr>,
     (snd (getMutexForUser u w))\<lparr>db :=
        \<lparr>users = (users (db w))
           \<lparr>rows := (rows (users (db w)))
              (u \<mapsto> \<lparr>u_id = u, point = balance w u + a, updateMillis = clock (users (db w))\<rparr>),
            calls := calls (users (db w)) @ [SelectById u, InsertOrUpdate u (balance w u + a)]\<rparr>,
         histories = (histories (db w))
           \<lparr>entries := entries (histories (db w)) @
              [\<lparr>h_id = cursor (histories (db w)), h_userId = u, h_amount = a, h_type = CHARGE,
                h_timeMillis = tInsert\<rparr>],
            cursor := cursor (histories (db w)) + 1,
            hcalls := hcalls (histories (db w)) @ [Insert u a CHARGE tInsert]\<rparr>\<rparr>\<rparr>)"
  using assms
  by (simp add: chargePoint_unfold inMemoryService_def chargePoint_nolock_mem insert_row_mem
      balance_def nearest_representable)

theorem chargePoint_within_limit_witness:
  "fst (chargePoint (inMemoryService 1000) 5 6 (Finite 1) (Finite 500) freshWorld) =
     Inr \<lparr>u_id = 1, point = 500, updateMillis = 6\<rparr>
   \<and> balance (snd (chargePoint (inMemoryService 1000) 5 6 (Finite 1) (Finite 500) freshWorld)) 1 = 500
   \<and> entries (histories (db (snd
        (chargePoint (inMemoryService 1000) 5 6 (Finite 1) (Finite 500) freshWorld)))) =
      [\<lparr>h_id = 1, h_userId = 1, h_amount = 500, h_type = CHARGE, h_timeMillis = 5\<rparr>]"
proof -
  have p: "(0::int) < 1" "(0::int) < 500" "representable (balance freshWorld 1 + 500)"
    "balance freshWorld 1 + 500 \<le> 1000" by (simp_all add: representable_small)
  note t = chargePoint_within_limit [OF p, where tInsert = 5 and tReturn = 6]
  show ?thesis using t by (simp add: freshWorld_def balance_def stored_def)
qed

text \<open>
  Without that condition the statement fails. With a limit of \<open>10 ^ 17\<close>, a stored balance
  of \<open>2 ^ 53\<close> and a charge of 1, the exact sum \<open>2 ^ 53 + 1\<close> is within the limit; the
  sum of the doubles is \<open>2 ^ 53\<close>, and that is what \<open>chargePoint\<close> writes and returns.
\<close>

theorem chargePoint_within_limit_counterexample:
  "balance (seededWorld 1 (2 ^ 53)) 1 + 1 \<le> 10 ^ 17
   \<and> fst (chargePoint (inMemoryService (10 ^ 17)) 5 6 (Finite 1) (Finite 1)
          (seededWorld 1 (2 ^ 53))) = Inr \<lparr>u_id = 1, point = 2 ^ 53, updateMillis = 6\<rparr>
   \<and> balance (snd (chargePoint (inMemoryService (10 ^ 17)) 5 6 (Finite 1) (Finite 1)
          (seededWorld 1 (2 ^ 53)))) 1 = 2 ^ 53
   \<and> balance (seededWorld 1 (2 ^ 53)) 1 + 1 \<noteq> 2 ^ 53"
  using chargePoint_mem_fst [where u = 1 and a = 1 and limit = "10 ^ 17" and tI = 5 and tR = 6
      and w = "seededWorld 1 (2 ^ 53)"]
    chargePoint_mem_balance [where u = 1 and a = 1 and limit = "10 ^ 17" and tI = 5 and tR = 6
      and w = "seededWorld 1 (2 ^ 53)" and v = 1]
    nearest_examples(1)
  by simp




section \<open>Using\<close>

text \<open>
  Claim C3, with the condition it needs. For a positive integer user id \<open>u\<close> and a
  positive integer amount \<open>a\<close>, when the stored balance \<open>B\<close> of \<open>u\<close> satisfies
  \<open>a \<le> B\<close> and \<open>B - a\<close> is a double, \<open>usePoint\<close> fulfils with the record
  \<open>{id: u, point: B - a}\<close>. The user table has received one \<open>selectById\<close> and one
  \<open>insertOrUpdate(u, B - a)\<close> and holds \<open>B - a\<close> for \<open>u\<close>; the history table has
  received one \<open>insert\<close> and holds one more record, a \<open>USE\<close> of \<open>a\<close> for \<open>u\<close>.
\<close>

theorem usePoint_within_balance:
  assumes "0 < u" and "0 < a" and "representable (balance w u - a)" and "a \<le> balance w u"
  shows "usePoint (inMemoryService limit) tInsert tReturn (Finite (of_int u)) (Finite (of_int a)) w =
    (Inr \<lparr>u_id = u, point = balance w u - a, updateMillis = tReturn\<rparr>,
     (snd (getMutexForUser u w))\<lparr>db :=
        \<lparr>users = (users (db w))
           \<lparr>rows := (rows (users (db w)))
              (u \<mapsto> \<lparr>u_id = u, point = balance w u - a, updateMillis = clock (users (db w))\<rparr>),
            calls := calls (users (db w)) @ [SelectById u, InsertOrUpdate u (balance w u - a)]\<rparr>,
         histories = (histories (db w))
           \<lparr>entries := entries (histories (db w)) @
              [\<lparr>h_id = cursor (histories (db w)), h_userId = u, h_amount = a, h_type = USE,
                h_timeMillis = tInsert\<rparr>],
            cursor := cursor (histories (db w)) + 1,
            hcalls := hcalls (histories (db w)) @ [Insert u a USE tInsert]\<rparr>\<rparr>\<rparr>)"
  using assms
  by (simp add: usePoint_unfold inMemoryService_def usePoint_nolock_mem insert_row_mem
      balance_def nearest_representable)

theorem usePoint_within_balance_witness:
  "fst (usePoint (inMemoryService 1000) 5 6 (Finite 1) (Finite 50) (seededWorld 1 100)) =
     Inr \<lparr>u_id = 1, point = 50, updateMillis = 6\<rparr>
   \<and> balance (snd (usePoint (inMemoryService 1000) 5 6 (Finite 1) (Finite 50)
         (seededWorld 1 100))) 1 = 50
   \<and> entries (histories (db (snd
        (usePoint (inMemoryService 1000) 5 6 (Finite 1) (Finite 50) (seededWorld 1 100))))) =
      [\<lparr>h_id = 1, h_userId = 1, h_amount = 50, h_type = USE, h_timeMillis = 5\<rparr>]"
proof -
  have p: "(0::int) < 1" "(0::int) < 50" "representable (balance (seededWorld 1 100) 1 - 50)"
    "50 \<le> balance (seededWorld 1 100) 1" by (simp_all add: representable_small)
  note t = usePoint_within_balance [OF p, where tInsert = 5 and tReturn = 6]
  show ?thesis using t by (simp add: seededWorld_def balance_def stored_def)
qed

text \<open>
  Without that condition the statement fails. With a stored balance of \<open>2 ^ 54\<close> and a use
  of 1, the exact difference is \<open>2 ^ 54 - 1\<close>; the difference of the doubles is
  \<open>2 ^ 54\<close>, and that is what \<open>usePoint\<close> writes and returns: a \<open>USE\<close> of 1 is
  recorded and the balance is what it was.
\<close>

theorem usePoint_within_balance_counterexample:
  "1 \<le> balance (seededWorld 1 (2 ^ 54)) 1
   \<and> fst (usePoint (inMemoryService (10 ^ 17)) 5 6 (Finite 1) (Finite 1)
          (seededWorld 1 (2 ^ 54))) = Inr \<lparr>u_id = 1, point = 2 ^ 54, updateMillis = 6\<rparr>
   \<and> balance (snd (usePoint (inMemoryService (10 ^ 17)) 5 6 (Finite 1) (Finite 1)
          (seededWorld 1 (2 ^ 54)))) 1 = 2 ^ 54
   \<and> balance (seededWorld 1 (2 ^ 54)) 1 - 1 \<noteq> 2 ^ 54"
  using usePoint_mem_fst [where u = 1 and a = 1 and limit = "10 ^ 17" and tI = 5 and tR = 6
      and w = "seededWorld 1 (2 ^ 54)"]
    usePoint_mem_balance [where u = 1 and a = 1 and limit = "10 ^ 17" and tI = 5 and tR = 6
      and w = "seededWorld 1 (2 ^ 54)" and v = 1]
    nearest_examples(3)
  by simp

text \<open>
  Claim C4. For a positive integer user id \<open>u\<close> and a positive integer amount \<open>a\<close>, when
  the stored balance \<open>B\<close> of \<open>u\<close> satisfies \<open>a > B\<close>, \<open>usePoint\<close> rejects with the
  insufficient-point error. The user table has received the one \<open>selectById\<close> and no
  write, the history table has received nothing, and the balance of \<open>u\<close> is still \<open>B\<close>.
\<close>

theorem usePoint_insufficient:
  assumes "0 < u" and "0 < a" and "a > balance w u"
  shows "usePoint (inMemoryService limit) tInsert tReturn (Finite (of_int u)) (Finite (of_int a)) w =
    (Inl InsufficientPoint,
     (snd (getMutexForUser u w))\<lparr>db :=
        (db w)\<lparr>users := (users (db w))\<lparr>calls := calls (users (db w)) @ [SelectById u]\<rparr>\<rparr>\<rparr>)
    \<and> balance (snd (usePoint (inMemoryService limit) tInsert tReturn
          (Finite (of_int u)) (Finite (of_int a)) w)) u = balance w u"
  using assms nearest_neg [of "balance w u - a"]
  by (simp add: usePoint_unfold inMemoryService_def usePoint_nolock_mem insert_row_mem
      balance_def)

theorem usePoint_insufficient_witness:
  "fst (usePoint (inMemoryService 1000) 5 6 (Finite 1) (Finite 151) (seededWorld 1 150)) =
     Inl InsufficientPoint
   \<and> balance (snd (usePoint (inMemoryService 1000) 5 6 (Finite 1) (Finite 151)
         (seededWorld 1 150))) 1 = 150
   \<and> histories (db (snd (usePoint (inMemoryService 1000) 5 6 (Finite 1) (Finite 151)
         (seededWorld 1 150)))) = histories (db (seededWorld 1 150))"
proof -
  have p: "(0::int) < 1" "(0::int) < 151" "151 > balance (seededWorld 1 150) 1" by simp_all
  note t = usePoint_insufficient [OF p, where tInsert = 5 and tReturn = 6 and limit = 1000]
  have a: "fst (usePoint (inMemoryService 1000) 5 6 (Finite 1) (Finite 151) (seededWorld 1 150)) =
     Inl InsufficientPoint"
    and c: "histories (db (snd (usePoint (inMemoryService 1000) 5 6 (Finite 1) (Finite 151)
         (seededWorld 1 150)))) = histories (db (seededWorld 1 150))"
    using t [THEN conjunct1] by simp_all
  have b: "balance (snd (usePoint (inMemoryService 1000) 5 6 (Finite 1) (Finite 151)
         (seededWorld 1 150))) 1 = 150"
    using t [THEN conjunct2] by simp
  from a b c show ?thesis by simp
qed

section \<open>Invalid arguments\<close>

text \<open>
  Claim C5. When the user id is not a positive integer, each of \<open>getPoint\<close>,
  \<open>getHistories\<close>, \<open>chargePoint\<close> and \<open>usePoint\<close> rejects with the invalid-id
  error; when the amount is not a positive integer, \<open>chargePoint\<close> and \<open>usePoint\<close>
  reject with an invalid-argument error. In each case the state after the call is the
  state before it, whatever the two tables are: no entry of the lock registry has been
  created, and neither table has been called (a table that records its calls, as
  \<open>inMemoryUserPointTable\<close> does, would have changed).
\<close>

theorem invalid_arguments_rejected:
  "(\<not> (\<exists>n>0. userId = Finite (of_int n)) \<longrightarrow>
      getPoint this userId w = (Inl (InvalidArgument InvalidId), w) \<and>
      getHistories this userId w = (Inl (InvalidArgument InvalidId), w) \<and>
      chargePoint this tInsert tReturn userId amount w = (Inl (InvalidArgument InvalidId), w) \<and>
      usePoint this tInsert tReturn userId amount w = (Inl (InvalidArgument InvalidId), w))
   \<and> (\<not> (\<exists>n>0. amount = Finite (of_int n)) \<longrightarrow>
      (\<exists>m. chargePoint this tInsert tReturn userId amount w = (Inl (InvalidArgument m), w)) \<and>
      (\<exists>m. usePoint this tInsert tReturn userId amount w = (Inl (InvalidArgument m), w)))"
  using positive_integer_iff [of userId] positive_integer_iff [of amount]
  by (auto simp: getPoint_def getHistories_def chargePoint_def usePoint_def reject_def)

theorem invalid_arguments_rejected_witness:
  "getPoint (inMemoryService 1000) NaN freshWorld = (Inl (InvalidArgument InvalidId), freshWorld)
   \<and> getHistories (inMemoryService 1000) (Finite 0) freshWorld =
       (Inl (InvalidArgument InvalidId), freshWorld)
   \<and> chargePoint (inMemoryService 1000) 5 6 (Finite (- 1)) (Finite 100) freshWorld =
       (Inl (InvalidArgument InvalidId), freshWorld)
   \<and> usePoint (inMemoryService 1000) 5 6 Infinity (Finite 100) freshWorld =
       (Inl (InvalidArgument InvalidId), freshWorld)
   \<and> (\<exists>m. chargePoint (inMemoryService 1000) 5 6 (Finite 1) (Finite (3 / 2)) freshWorld =
       (Inl (InvalidArgument m), freshWorld))
   \<and> (\<exists>m. usePoint (inMemoryService 1000) 5 6 (Finite 1) NegInfinity freshWorld =
       (Inl (InvalidArgument m), freshWorld))"
  using invalid_arguments_rejected [where userId = NaN and this = "inMemoryService 1000"
      and w = freshWorld]
    invalid_arguments_rejected [where userId = "Finite 0" and this = "inMemoryService 1000"
      and w = freshWorld]
    invalid_arguments_rejected [where userId = "Finite (- 1)" and this = "inMemoryService 1000"
      and w = freshWorld and tInsert = 5 and tReturn = 6 and amount = "Finite 100"]
    invalid_arguments_rejected [where userId = Infinity and this = "inMemoryService 1000"
      and w = freshWorld and tInsert = 5 and tReturn = 6 and amount = "Finite 100"]
    invalid_arguments_rejected [where userId = "Finite 1" and this = "inMemoryService 1000"
      and w = freshWorld and tInsert = 5 and tReturn = 6 and amount = "Finite (3 / 2)"]
    invalid_arguments_rejected [where userId = "Finite 1" and this = "inMemoryService 1000"
      and w = freshWorld and tInsert = 5 and tReturn = 6 and amount = NegInfinity]
    not_positive_integer_examples
  by blast

section \<open>The balance invariant\<close>

text \<open>
  Claim C6. If the stored point of a user is at least 0, it is still at least 0 after any
  call of \<open>getPoint\<close>, \<open>getHistories\<close>, \<open>chargePoint\<close> or \<open>usePoint\<close>, with any
  arguments and whether the call fulfils or rejects; and when \<open>chargePoint\<close> fulfils, the
  stored point of the charged user is at most \<open>chargeLimit\<close>.
\<close>

theorem balance_invariant:
  assumes "0 \<le> balance w v"
  shows "0 \<le> balance (snd (getPoint (inMemoryService limit) userId w)) v
    \<and> 0 \<le> balance (snd (getHistories (inMemoryService limit) userId w)) v
    \<and> 0 \<le> balance (snd (chargePoint (inMemoryService limit) tInsert tReturn userId amount w)) v
    \<and> 0 \<le> balance (snd (usePoint (inMemoryService limit) tInsert tReturn userId amount w)) v
    \<and> (\<forall>r. fst (chargePoint (inMemoryService limit) tInsert tReturn userId amount w) = Inr r \<longrightarrow>
          balance (snd (chargePoint (inMemoryService limit) tInsert tReturn userId amount w)) (u_id r)
            \<le> limit)"
proof -
  let ?ok = "(Number_isInteger userId \<and> \<not> le_zero userId) \<and>
             (Number_isInteger amount \<and> \<not> le_zero amount)"
  have g: "0 \<le> balance (snd (getPoint (inMemoryService limit) userId w)) v"
    using assms balance_rows [OF getPoint_mem_rows] by simp
  have h: "0 \<le> balance (snd (getHistories (inMemoryService limit) userId w)) v"
    using assms balance_users [OF getHistories_mem_users] by simp
  have cu: "0 \<le> balance (snd (chargePoint (inMemoryService limit) tInsert tReturn userId amount w)) v
    \<and> 0 \<le> balance (snd (usePoint (inMemoryService limit) tInsert tReturn userId amount w)) v
    \<and> (\<forall>r. fst (chargePoint (inMemoryService limit) tInsert tReturn userId amount w) = Inr r \<longrightarrow>
          balance (snd (chargePoint (inMemoryService limit) tInsert tReturn userId amount w)) (u_id r)
            \<le> limit)"
  proof (cases ?ok)
    case False
    from chargePoint_invalid [OF False] usePoint_invalid [OF False] obtain m m' where
      "chargePoint (inMemoryService limit) tInsert tReturn userId amount w = (Inl (InvalidArgument m), w)"
      "usePoint (inMemoryService limit) tInsert tReturn userId amount w = (Inl (InvalidArgument m'), w)"
      by blast
    with assms show ?thesis by simp
  next
    case True
    then obtain u a where u: "0 < u" "userId = Finite (of_int u)"
      and a: "0 < a" "amount = Finite (of_int a)"
      using positive_integer_iff [of userId] positive_integer_iff [of amount] by auto
    show ?thesis
      using assms a(1) nearest_nonneg [of "balance w u + a"]
      unfolding u(2) a(2) chargePoint_mem_balance [OF u(1) a(1)] usePoint_mem_balance [OF u(1) a(1)]
        chargePoint_mem_fst [OF u(1) a(1)]
      by auto
  qed
  from g h cu show ?thesis by simp
qed

theorem balance_invariant_witness:
  "0 \<le> balance (snd (getPoint (inMemoryService 1000) (Finite 1) (seededWorld 1 100))) 1
   \<and> 0 \<le> balance (snd (getHistories (inMemoryService 1000) (Finite 1) (seededWorld 1 100))) 1
   \<and> 0 \<le> balance (snd (chargePoint (inMemoryService 1000) 5 6 (Finite 1) (Finite 900)
              (seededWorld 1 100))) 1
   \<and> 0 \<le> balance (snd (usePoint (inMemoryService 1000) 5 6 (Finite 1) (Finite 100)
              (seededWorld 1 100))) 1
   \<and> balance (snd (chargePoint (inMemoryService 1000) 5 6 (Finite 1) (Finite 900)
          (seededWorld 1 100))) 1 \<le> 1000"
proof -
  have r: "fst (chargePoint (inMemoryService 1000) 5 6 (Finite 1) (Finite 900) (seededWorld 1 100)) =
      Inr \<lparr>u_id = 1, point = 1000, updateMillis = 6\<rparr>"
    using chargePoint_mem_fst [where u = 1 and a = 900 and limit = 1000 and tI = 5 and tR = 6
        and w = "seededWorld 1 100"] by (simp add: nearest_small)
  have h: "0 \<le> balance (seededWorld 1 100) 1" by simp
  from balance_invariant [OF h, where limit = 1000 and userId = "Finite 1" and tInsert = 5
      and tReturn = 6 and amount = "Finite 900"]
    balance_invariant [OF h, where limit = 1000 and userId = "Finite 1" and tInsert = 5
      and tReturn = 6 and amount = "Finite 100"] r
  show ?thesis by simp
qed

section \<open>The two variants of the service\<close>

text \<open>
  Claim C9. Run from the same state of the two tables with the same collaborators and
  the same limit, each operation of the lock-guarded service settles as the operation of
  the service without a lock does (the same fulfilment value or the same error) and leaves
  the two tables in the same state. For \<open>getPoint\<close> and \<open>getHistories\<close> the guarded
  service does not touch its lock registry either.
\<close>

theorem guarded_equals_unguarded:
  "getPoint this userId w =
     (fst (getPoint_nolock this userId (db w)), w\<lparr>db := snd (getPoint_nolock this userId (db w))\<rparr>)
   \<and> getHistories this userId w =
     (fst (getHistories_nolock this userId (db w)),
      w\<lparr>db := snd (getHistories_nolock this userId (db w))\<rparr>)
   \<and> fst (chargePoint this tInsert tReturn userId amount w) =
       fst (chargePoint_nolock this tInsert tReturn userId amount (db w))
   \<and> db (snd (chargePoint this tInsert tReturn userId amount w)) =
       snd (chargePoint_nolock this tInsert tReturn userId amount (db w))
   \<and> fst (usePoint this tInsert tReturn userId amount w) =
       fst (usePoint_nolock this tInsert tReturn userId amount (db w))
   \<and> db (snd (usePoint this tInsert tReturn userId amount w)) =
       snd (usePoint_nolock this tInsert tReturn userId amount (db w))"
proof -
  have "getPoint this userId w =
     (fst (getPoint_nolock this userId (db w)), w\<lparr>db := snd (getPoint_nolock this userId (db w))\<rparr>)"
    by (simp add: getPoint_def getPoint_nolock_def reject_def on_db_def split: prod.splits)
  moreover have "getHistories this userId w =
     (fst (getHistories_nolock this userId (db w)),
      w\<lparr>db := snd (getHistories_nolock this userId (db w))\<rparr>)"
    by (simp add: getHistories_def getHistories_nolock_def reject_def on_db_def split: prod.splits)
  moreover have "fst (chargePoint this tInsert tReturn userId amount w) =
       fst (chargePoint_nolock this tInsert tReturn userId amount (db w))"
    and "db (snd (chargePoint this tInsert tReturn userId amount w)) =
       snd (chargePoint_nolock this tInsert tReturn userId amount (db w))"
    by (simp_all add: chargePoint_unfold split: prod.splits)
  moreover have "fst (usePoint this tInsert tReturn userId amount w) =
       fst (usePoint_nolock this tInsert tReturn userId amount (db w))"
    and "db (snd (usePoint this tInsert tReturn userId amount w)) =
       snd (usePoint_nolock this tInsert tReturn userId amount (db w))"
    by (simp_all add: usePoint_unfold split: prod.splits)
  ultimately show ?thesis by simp
qed

theorem guarded_equals_unguarded_witness:
  "fst (chargePoint (inMemoryService 1000) 5 6 (Finite 1) (Finite 500) freshWorld) =
     fst (chargePoint_nolock (inMemoryService 1000) 5 6 (Finite 1) (Finite 500) (db freshWorld))
   \<and> db (snd (chargePoint (inMemoryService 1000) 5 6 (Finite 1) (Finite 500) freshWorld)) =
     snd (chargePoint_nolock (inMemoryService 1000) 5 6 (Finite 1) (Finite 500) (db freshWorld))
   \<and> fst (usePoint (inMemoryService 1000) 5 6 (Finite 1) (Finite 500) freshWorld) =
     Inl InsufficientPoint
   \<and> fst (usePoint_nolock (inMemoryService 1000) 5 6 (Finite 1) (Finite 500) (db freshWorld)) =
     Inl InsufficientPoint"
  using guarded_equals_unguarded [where this = "inMemoryService 1000" and userId = "Finite 1"
      and w = freshWorld and tInsert = 5 and tReturn = 6 and amount = "Finite 500"]
    usePoint_mem_fst [where u = 1 and a = 500 and limit = 1000 and tI = 5 and tR = 6
      and w = freshWorld]
  by (simp add: nearest_small)

section \<open>A history insert that rejects\<close>




section \<open>One lock per user\<close>

lemma getMutexForUser_step:
  assumes "registry_ok w" and "getMutexForUser u w = (m, w')"
  shows "registry_ok w'" and "dom (locks w') = insert u (dom (locks w))"
    and "locks w \<subseteq>\<^sub>m locks w'" and "m = locks w' u"
proof -
  show "m = locks w' u" using assms(2) by (auto simp: getMutexForUser_def Let_def split: if_splits)
  show "dom (locks w') = insert u (dom (locks w))"
    using assms(2) by (auto simp: getMutexForUser_def Let_def split: if_splits)
  show "locks w \<subseteq>\<^sub>m locks w'"
    using assms(2) by (auto simp: getMutexForUser_def Let_def map_le_def split: if_splits)
  show "registry_ok w'"
  proof (cases "u \<in> dom (locks w)")
    case True
    with assms show ?thesis by (auto simp: getMutexForUser_def Let_def)
  next
    case False
    then have w': "w' = w\<lparr>locks := (locks w)(u \<mapsto> mutexes w), mutexes := Suc (mutexes w)\<rparr>"
      using assms(2) by (auto simp: getMutexForUser_def Let_def)
    from assms(1) have fin: "finite (dom (locks w))" and inj: "inj_on (locks w) (dom (locks w))"
      and bound: "\<And>v x. locks w v = Some x \<Longrightarrow> x < mutexes w"
      and cnt: "mutexes w = card (dom (locks w))"
      by (auto simp: registry_ok_def)
    have "inj_on ((locks w)(u \<mapsto> mutexes w)) (insert u (dom (locks w)))"
      unfolding inj_on_def
    proof (intro ballI impI)
      fix x y
      assume x: "x \<in> insert u (dom (locks w))" and y: "y \<in> insert u (dom (locks w))"
        and eq: "((locks w)(u \<mapsto> mutexes w)) x = ((locks w)(u \<mapsto> mutexes w)) y"
      show "x = y"
      proof (cases "x = u")
        case xu: True
        show ?thesis
        proof (cases "y = u")
          case True with xu show ?thesis by simp
        next
          case yu: False
          with y obtain z where "locks w y = Some z" by auto
          with bound [OF this] eq xu yu show ?thesis by simp
        qed
      next
        case xu: False
        with x obtain z where z: "locks w x = Some z" by auto
        show ?thesis
        proof (cases "y = u")
          case True
          with bound [OF z] eq xu z show ?thesis by simp
        next
          case False
          with xu eq x y inj show ?thesis by (auto simp: inj_on_def)
        qed
      qed
    qed
    moreover have "card (insert u (dom (locks w))) = Suc (card (dom (locks w)))"
      using fin False by simp
    ultimately show ?thesis
      using fin bound cnt False unfolding w' registry_ok_def
      by (auto simp: less_Suc_eq)
  qed
qed

lemma getMutexForUsers_run:
  assumes "registry_ok w" and "getMutexForUsers us w = (ms, w')"
  shows "registry_ok w' \<and> dom (locks w') = dom (locks w) \<union> set us \<and> locks w \<subseteq>\<^sub>m locks w'
     \<and> length ms = length us \<and> (\<forall>i<length us. ms ! i = locks w' (us ! i))"
  using assms
proof (induction us arbitrary: w ms w')
  case Nil
  then show ?case by simp
next
  case (Cons u us)
  obtain m w1 where s: "getMutexForUser u w = (m, w1)" by (cases "getMutexForUser u w")
  obtain ms' w2 where r: "getMutexForUsers us w1 = (ms', w2)" by (cases "getMutexForUsers us w1")
  from Cons.prems(2) s r have ms: "ms = m # ms'" and w': "w' = w2" by simp_all
  note st = getMutexForUser_step [OF Cons.prems(1) s]
  from Cons.IH [OF st(1) r] have ih: "registry_ok w2" "dom (locks w2) = dom (locks w1) \<union> set us"
    "locks w1 \<subseteq>\<^sub>m locks w2" "length ms' = length us" "\<forall>i<length us. ms' ! i = locks w2 (us ! i)"
    by simp_all
  have "u \<in> dom (locks w1)" using st(2) by simp
  then have m: "m = locks w2 u" using st(4) ih(3) by (auto simp: map_le_def)
  have "\<forall>i<length (u # us). ms ! i = locks w' ((u # us) ! i)"
  proof (intro allI impI)
    fix i assume "i < length (u # us)"
    then show "ms ! i = locks w' ((u # us) ! i)"
      using ih(5) m ms w' by (cases i) simp_all
  qed
  moreover have "locks w \<subseteq>\<^sub>m locks w'" using st(3) ih(3) w' by (blast intro: map_le_trans)
  ultimately show ?case using ih st(2) ms w' by auto
qed

lemma registry_after_charge:
  "(locks (snd (chargePoint this tI tR userId amount w)), mutexes (snd (chargePoint this tI tR userId amount w)))
     = (locks w, mutexes w) \<or>
   (locks (snd (chargePoint this tI tR userId amount w)), mutexes (snd (chargePoint this tI tR userId amount w)))
     = (locks (snd (getMutexForUser (to_int userId) w)), mutexes (snd (getMutexForUser (to_int userId) w)))"
  by (simp add: chargePoint_unfold split: prod.splits)

lemma registry_after_use:
  "(locks (snd (usePoint this tI tR userId amount w)), mutexes (snd (usePoint this tI tR userId amount w)))
     = (locks w, mutexes w) \<or>
   (locks (snd (usePoint this tI tR userId amount w)), mutexes (snd (usePoint this tI tR userId amount w)))
     = (locks (snd (getMutexForUser (to_int userId) w)), mutexes (snd (getMutexForUser (to_int userId) w)))"
  by (simp add: usePoint_unfold split: prod.splits)

lemma registry_after_reads:
  "locks (snd (getPoint this userId w)) = locks w"
  "mutexes (snd (getPoint this userId w)) = mutexes w"
  "locks (snd (getHistories this userId w)) = locks w"
  "mutexes (snd (getHistories this userId w)) = mutexes w"
  by (simp_all add: getPoint_def getHistories_def reject_def on_db_def split: prod.splits)

text \<open>
  Claim C7. Start from an empty registry and let the calls \<open>getMutexForUser\<close> for the ids
  \<open>us\<close> happen in this order, whoever makes them. Every call returns a \<open>Mutex\<close>; two
  calls return the same object exactly when they are for the same id; the object a call
  returned is still the entry of its id after all the calls; the registry has one entry
  for each id that was asked for and no other; and the number of \<open>Mutex\<close> objects
  constructed is the number of distinct ids. So the first call for an id creates its one
  entry, a later call for that id, also one racing with the first, returns the same
  object, and no entry is removed or replaced. Outside \<open>getMutexForUser\<close> the service
  does not touch the registry: \<open>getPoint\<close> and \<open>getHistories\<close> leave it as it is,
  \<open>chargePoint\<close> and \<open>usePoint\<close> leave it as it is or as their one call of
  \<open>getMutexForUser\<close> leaves it.
\<close>

theorem lock_registry_unique:
  assumes "locks w0 = Map.empty" and "mutexes w0 = 0" and "getMutexForUsers us w0 = (ms, w)"
  shows "length ms = length us
    \<and> (\<forall>i<length us. ms ! i \<noteq> None \<and> locks w (us ! i) = ms ! i)
    \<and> (\<forall>i<length us. \<forall>j<length us. (ms ! i = ms ! j) = (us ! i = us ! j))
    \<and> dom (locks w) = set us
    \<and> mutexes w = card (set us)
    \<and> locks (snd (getPoint this userId w)) = locks w
    \<and> mutexes (snd (getPoint this userId w)) = mutexes w
    \<and> locks (snd (getHistories this userId w)) = locks w
    \<and> mutexes (snd (getHistories this userId w)) = mutexes w
    \<and> (\<exists>r. (r = w \<or> r = snd (getMutexForUser (to_int userId) w)) \<and>
          locks (snd (chargePoint this tInsert tReturn userId amount w)) = locks r \<and>
          mutexes (snd (chargePoint this tInsert tReturn userId amount w)) = mutexes r)
    \<and> (\<exists>r. (r = w \<or> r = snd (getMutexForUser (to_int userId) w)) \<and>
          locks (snd (usePoint this tInsert tReturn userId amount w)) = locks r \<and>
          mutexes (snd (usePoint this tInsert tReturn userId amount w)) = mutexes r)"
proof -
  have ok: "registry_ok w0" using assms(1,2) by (simp add: registry_ok_def)
  from getMutexForUsers_run [OF ok assms(3)] have r: "registry_ok w" "dom (locks w) = set us"
    "length ms = length us" "\<forall>i<length us. ms ! i = locks w (us ! i)"
    using assms(1) by simp_all
  have a: "\<forall>i<length us. ms ! i \<noteq> None \<and> locks w (us ! i) = ms ! i"
    using r(2,4) by (metis domIff nth_mem)
  have b: "\<forall>i<length us. \<forall>j<length us. (ms ! i = ms ! j) = (us ! i = us ! j)"
  proof (intro allI impI)
    fix i j assume i: "i < length us" and j: "j < length us"
    from r(1) have "inj_on (locks w) (dom (locks w))" by (simp add: registry_ok_def)
    moreover have "us ! i \<in> dom (locks w)" "us ! j \<in> dom (locks w)" using i j r(2) by simp_all
    ultimately show "(ms ! i = ms ! j) = (us ! i = us ! j)"
      using r(4) i j by (auto simp: inj_on_def)
  qed
  have c: "mutexes w = card (set us)" using r(1,2) by (simp add: registry_ok_def)
  have d: "\<exists>r. (r = w \<or> r = snd (getMutexForUser (to_int userId) w)) \<and>
          locks (snd (chargePoint this tInsert tReturn userId amount w)) = locks r \<and>
          mutexes (snd (chargePoint this tInsert tReturn userId amount w)) = mutexes r"
    using registry_after_charge [of this tInsert tReturn userId amount w] by auto
  have e: "\<exists>r. (r = w \<or> r = snd (getMutexForUser (to_int userId) w)) \<and>
          locks (snd (usePoint this tInsert tReturn userId amount w)) = locks r \<and>
          mutexes (snd (usePoint this tInsert tReturn userId amount w)) = mutexes r"
    using registry_after_use [of this tInsert tReturn userId amount w] by auto
  from r(2,3) a b c d e show ?thesis by (simp add: registry_after_reads)
qed

theorem lock_registry_unique_witness:
  "getMutexForUsers [7, 3, 7] freshWorld =
     ([Some 0, Some 1, Some 0], freshWorld\<lparr>locks := [7 \<mapsto> 0, 3 \<mapsto> 1], mutexes := 2\<rparr>)
   \<and> mutexes (snd (getMutexForUsers [7, 3, 7] freshWorld)) = card (set [7, 3, 7 :: int])
   \<and> dom (locks (snd (getMutexForUsers [7, 3, 7] freshWorld))) = {3, 7}"
proof -
  have e: "getMutexForUsers [7, 3, 7] freshWorld =
     ([Some 0, Some 1, Some 0], freshWorld\<lparr>locks := [7 \<mapsto> 0, 3 \<mapsto> 1], mutexes := 2\<rparr>)"
    by (simp add: getMutexForUser_def freshWorld_def)
  have "locks freshWorld = Map.empty" and "mutexes freshWorld = 0"
    by (simp_all add: freshWorld_def)
  from lock_registry_unique [OF this e, where this = "inMemoryService 1000"] e
  show ?thesis by auto
qed

section \<open>Calls in flight: the invariant\<close>

text \<open>
  A request that fails validation rejects and changes nothing; a valid one settles as the
  rest of its critical section, started at \<open>Selecting\<close>, settles.
\<close>

lemma perform_invalid:
  "\<not> valid_request userId c \<Longrightarrow> perform this userId c w = (Inl (invalid_error userId c), w)"
  by (auto simp: valid_request_def perform_def invalid_error_def chargePoint_def usePoint_def
      reject_def split: TransactionType.splits)

lemma perform_valid:
  assumes "valid_request userId c"
  shows "fst (perform this userId c w) =
           settle userId c (fst (section_rest this userId c (Selecting m) (db w)))"
    and "db (snd (perform this userId c w)) = snd (section_rest this userId c (Selecting m) (db w))"
  using assms
  by (auto simp: valid_request_def perform_def chargePoint_unfold usePoint_unfold
      chargePoint_nolock_def usePoint_nolock_def section_rest_def settle_def
      await_def resolve_def reject_def Let_def
      split: TransactionType.splits prod.splits sum.splits)

lemma one_by_one_append:
  "one_by_one this userId (xs @ [c]) w =
     (fst (one_by_one this userId xs w) @ [fst (perform this userId c (snd (one_by_one this userId xs w)))],
      snd (perform this userId c (snd (one_by_one this userId xs w))))"
  by (induction xs arbitrary: w) (simp_all split: prod.splits)

lemma one_by_one_append2:
  "one_by_one this userId (xs @ ys) w =
     (fst (one_by_one this userId xs w) @ fst (one_by_one this userId ys (snd (one_by_one this userId xs w))),
      snd (one_by_one this userId ys (snd (one_by_one this userId xs w))))"
  by (induction xs arbitrary: w) (simp_all split: prod.splits)

lemma one_by_one_invalid:
  "\<forall>c\<in>set xs. \<not> valid_request userId c \<Longrightarrow>
     one_by_one this userId xs w = (map (\<lambda>c. Inl (invalid_error userId c)) xs, w)"
  by (induction xs arbitrary: w) (simp_all add: perform_invalid)

lemma one_by_one_Cons:
  "one_by_one this userId (c # cs) w =
     (fst (perform this userId c w) # fst (one_by_one this userId cs (snd (perform this userId c w))),
      snd (one_by_one this userId cs (snd (perform this userId c w))))"
  by (simp add: case_prod_beta)

lemma getMutexForUser_Some:
  obtains m w1 where "getMutexForUser u w = (Some m, w1)" "db w1 = db w"
    "locks w1 u = Some m" "\<And>v x. locks w v = Some x \<Longrightarrow> locks w1 v = Some x"
proof -
  obtain r w1 where g: "getMutexForUser u w = (r, w1)" by (cases "getMutexForUser u w")
  from getMutexForUser_fst [of u w] g obtain m where "r = Some m" by auto
  moreover have "db w1 = db w" using getMutexForUser_db [of u w] g by simp
  moreover have "locks w1 u = r" using g by (auto simp: getMutexForUser_def Let_def split: if_splits)
  moreover have "\<And>v x. locks w v = Some x \<Longrightarrow> locks w1 v = Some x"
    using g by (auto simp: getMutexForUser_def Let_def split: if_splits)
  ultimately show ?thesis using that g by auto
qed

text \<open>What a step does, stage by stage.\<close>

lemma step_Called:
  assumes "request_step this userId c Called w held = Some (st, w1, held1)"
  shows "held1 = held \<and>
     (if valid_request userId c
      then \<exists>m. st = Queued m \<and> getMutexForUser (to_int userId) w = (Some m, w1)
      else st = Settled (Inl (invalid_error userId c)) \<and> w1 = w)"
proof -
  obtain m w' where g: "getMutexForUser (to_int userId) w = (Some m, w')"
    by (rule getMutexForUser_Some [of "to_int userId" w])
  show ?thesis
    using assms g
    by (auto simp: request_step_def chargePoint_step_def usePoint_step_def valid_request_def
        invalid_error_def split: TransactionType.splits if_splits)
qed

lemma step_Queued:
  assumes "request_step this userId c (Queued m) w held = Some (st, w1, held1)"
  shows "m \<notin> held \<and> st = Selecting m \<and> w1 = w \<and> held1 = insert m held"
  using assms
  by (auto simp: request_step_def chargePoint_step_def usePoint_step_def
      split: TransactionType.splits if_splits)

lemma step_Leaving:
  assumes "request_step this userId c (Leaving m r) w held = Some (st, w1, held1)"
  shows "st = Settled (settle userId c r) \<and> w1 = w \<and> held1 = held - {m}"
  using assms
  by (auto simp: request_step_def chargePoint_step_def usePoint_step_def settle_def
      split: TransactionType.splits if_splits)

lemma step_Settled: "request_step this userId c (Settled r) w held = None"
  by (auto simp: request_step_def chargePoint_step_def usePoint_step_def
      split: TransactionType.splits)

lemma step_inner:
  assumes "st = Selecting m \<or> st = Updating m p \<or> st = Inserting m p"
  shows "\<exists>st' w1. request_step this userId c st w held = Some (st', w1, held) \<and>
     in_section st' \<and> mutex_of st' = Some m \<and> locks w1 = locks w \<and>
     section_rest this userId c st' (db w1) = section_rest this userId c st (db w)"
  using assms
  by (auto simp: request_step_def chargePoint_step_def usePoint_step_def in_section_def
      mutex_of_def section_rest_def on_db_def on_users_def on_histories_def await_def resolve_def
      reject_def Let_def
      split: TransactionType.splits prod.splits sum.splits)

lemma invI:
  assumes "length (sys_stages s) = length cs"
    and "distinct (sys_grants s)"
    and "\<And>j m. j < length cs \<Longrightarrow> mutex_of (sys_stages s ! j) = Some m \<Longrightarrow>
           locks (sys_world s) (to_int userId) = Some m"
    and "\<And>j. j < length cs \<Longrightarrow> in_section (sys_stages s ! j) \<Longrightarrow>
           sys_grants s \<noteq> [] \<and> last (sys_grants s) = j \<and>
           (\<exists>m. mutex_of (sys_stages s ! j) = Some m \<and> m \<in> sys_held s)"
    and "\<And>j. j < length cs \<Longrightarrow> \<not> valid_request userId (cs ! j) \<Longrightarrow>
           sys_stages s ! j = Called \<or>
           sys_stages s ! j = Settled (Inl (invalid_error userId (cs ! j)))"
    and "\<And>j. j \<in> set (sys_grants s) \<longleftrightarrow>
           j < length cs \<and> valid_request userId (cs ! j) \<and>
           (in_section (sys_stages s ! j) \<or> is_Settled (sys_stages s ! j))"
    and "fst (one_by_one this userId (map ((!) cs) (sys_grants s)) w0) =
       map (\<lambda>i. outcome this userId (cs ! i) (sys_stages s ! i) (db (sys_world s))) (sys_grants s)"
    and "db (snd (one_by_one this userId (map ((!) cs) (sys_grants s)) w0)) =
       pending_db this userId cs s"
  shows "sys_inv this userId cs w0 s"
  unfolding sys_inv_def using assms by blast

lemma invD:
  assumes "sys_inv this userId cs w0 s"
  shows "length (sys_stages s) = length cs"
    and "distinct (sys_grants s)"
    and "\<And>j m. j < length cs \<Longrightarrow> mutex_of (sys_stages s ! j) = Some m \<Longrightarrow>
           locks (sys_world s) (to_int userId) = Some m"
    and "\<And>j. j < length cs \<Longrightarrow> in_section (sys_stages s ! j) \<Longrightarrow>
           sys_grants s \<noteq> [] \<and> last (sys_grants s) = j \<and>
           (\<exists>m. mutex_of (sys_stages s ! j) = Some m \<and> m \<in> sys_held s)"
    and "\<And>j. j < length cs \<Longrightarrow> \<not> valid_request userId (cs ! j) \<Longrightarrow>
           sys_stages s ! j = Called \<or>
           sys_stages s ! j = Settled (Inl (invalid_error userId (cs ! j)))"
    and "\<And>j. j \<in> set (sys_grants s) \<longleftrightarrow>
           j < length cs \<and> valid_request userId (cs ! j) \<and>
           (in_section (sys_stages s ! j) \<or> is_Settled (sys_stages s ! j))"
    and "fst (one_by_one this userId (map ((!) cs) (sys_grants s)) w0) =
       map (\<lambda>i. outcome this userId (cs ! i) (sys_stages s ! i) (db (sys_world s))) (sys_grants s)"
    and "db (snd (one_by_one this userId (map ((!) cs) (sys_grants s)) w0)) =
       pending_db this userId cs s"
  using assms unfolding sys_inv_def by blast+

lemma outcome_Settled: "is_Settled st \<Longrightarrow> outcome this userId c st d = outcome this userId c st d'"
  by (cases st) (simp_all add: is_Settled_def outcome_def)

lemma Settled_outcome: "is_Settled st \<Longrightarrow> Settled (outcome this userId c st d) = st"
  by (cases st) (simp_all add: is_Settled_def outcome_def)

lemma inv_outside:
  assumes I: "sys_inv this userId cs w0 s" and i: "i < length cs"
    and out: "\<not> in_section (sys_stages s ! i)" "\<not> is_Settled (sys_stages s ! i)"
    and st': "\<not> in_section st'"
    and dbw: "db w1 = db (sys_world s)"
    and keep: "\<And>v x. locks (sys_world s) v = Some x \<Longrightarrow> locks w1 v = Some x"
    and mtx': "\<And>m. mutex_of st' = Some m \<Longrightarrow> locks w1 (to_int userId) = Some m"
    and val': "if valid_request userId (cs ! i) then \<not> is_Settled st'
               else st' = Settled (Inl (invalid_error userId (cs ! i)))"
  shows "sys_inv this userId cs w0
     \<lparr>sys_world = w1, sys_held = sys_held s, sys_stages = (sys_stages s)[i := st'],
       sys_grants = sys_grants s\<rparr>"
proof (rule invI)
  note D = invD [OF I]
  have ni: "i \<notin> set (sys_grants s)" using D(6) [of i] out by simp
  let ?s' = "\<lparr>sys_world = w1, sys_held = sys_held s, sys_stages = (sys_stages s)[i := st'],
       sys_grants = sys_grants s\<rparr>"
  show "length (sys_stages ?s') = length cs" using D(1) by simp
  show "distinct (sys_grants ?s')" using D(2) by simp
  show "locks (sys_world ?s') (to_int userId) = Some m"
    if "j < length cs" "mutex_of (sys_stages ?s' ! j) = Some m" for j m
    using that D(1) D(3) [of j m] keep mtx' by (cases "j = i") auto
  show "sys_grants ?s' \<noteq> [] \<and> last (sys_grants ?s') = j \<and>
           (\<exists>m. mutex_of (sys_stages ?s' ! j) = Some m \<and> m \<in> sys_held ?s')"
    if "j < length cs" "in_section (sys_stages ?s' ! j)" for j
    using that D(1) D(4) [of j] st' by (cases "j = i") auto
  show "sys_stages ?s' ! j = Called \<or>
           sys_stages ?s' ! j = Settled (Inl (invalid_error userId (cs ! j)))"
    if "j < length cs" "\<not> valid_request userId (cs ! j)" for j
    using that D(1) D(5) [of j] val' by (cases "j = i") auto
  show "j \<in> set (sys_grants ?s') \<longleftrightarrow>
           j < length cs \<and> valid_request userId (cs ! j) \<and>
           (in_section (sys_stages ?s' ! j) \<or> is_Settled (sys_stages ?s' ! j))" for j
    using D(1) D(6) [of j] ni st' val' i
    by (cases "j = i") (auto split: if_splits)
  have same: "sys_stages ?s' ! j = sys_stages s ! j" if "j \<in> set (sys_grants s)" for j
    using that ni by (metis nth_list_update_neq system.select_convs(3))
  show "fst (one_by_one this userId (map ((!) cs) (sys_grants ?s')) w0) =
       map (\<lambda>i. outcome this userId (cs ! i) (sys_stages ?s' ! i) (db (sys_world ?s')))
         (sys_grants ?s')"
    using D(7) same dbw by (simp cong: map_cong)
  have "pending_db this userId cs ?s' = pending_db this userId cs s"
    using same [OF last_in_set] dbw by (auto simp: pending_db_def)
  then show "db (snd (one_by_one this userId (map ((!) cs) (sys_grants ?s')) w0)) =
       pending_db this userId cs ?s'"
    using D(8) by simp
qed

lemma inv_grant:
  assumes I: "sys_inv this userId cs w0 s" and i: "i < length cs"
    and q: "sys_stages s ! i = Queued m" and free: "m \<notin> sys_held s"
  shows "sys_inv this userId cs w0
     \<lparr>sys_world = sys_world s, sys_held = insert m (sys_held s),
       sys_stages = (sys_stages s)[i := Selecting m], sys_grants = sys_grants s @ [i]\<rparr>"
proof (rule invI)
  note D = invD [OF I]
  let ?s' = "\<lparr>sys_world = sys_world s, sys_held = insert m (sys_held s),
       sys_stages = (sys_stages s)[i := Selecting m], sys_grants = sys_grants s @ [i]\<rparr>"
  have lk: "locks (sys_world s) (to_int userId) = Some m"
    using D(3) [OF i, of m] q by (simp add: mutex_of_def)
  have nobody: "\<not> in_section (sys_stages s ! j)" if "j < length cs" for j
  proof
    assume "in_section (sys_stages s ! j)"
    from D(4) [OF that this] obtain m' where
      m': "mutex_of (sys_stages s ! j) = Some m'" "m' \<in> sys_held s" by blast
    from D(3) [OF that m'(1)] lk have "m' = m" by simp
    with m'(2) free show False by simp
  qed
  have ni: "i \<notin> set (sys_grants s)"
    using D(6) [of i] q by (simp add: in_section_def is_Settled_def)
  have valid: "valid_request userId (cs ! i)"
    using D(5) [OF i] q by auto
  have settled: "is_Settled (sys_stages s ! j)" if "j \<in> set (sys_grants s)" for j
    using that D(6) [of j] nobody [of j] by simp
  have same: "sys_stages ?s' ! j = sys_stages s ! j" if "j \<in> set (sys_grants s)" for j
    using that ni by (metis nth_list_update_neq system.select_convs(3))
  show "length (sys_stages ?s') = length cs" using D(1) by simp
  show "distinct (sys_grants ?s')" using D(2) ni by simp
  show "locks (sys_world ?s') (to_int userId) = Some m'"
    if "j < length cs" "mutex_of (sys_stages ?s' ! j) = Some m'" for j m'
    using that D(1) D(3) [of j m'] lk by (cases "j = i") (auto simp: mutex_of_def)
  show "sys_grants ?s' \<noteq> [] \<and> last (sys_grants ?s') = j \<and>
           (\<exists>m. mutex_of (sys_stages ?s' ! j) = Some m \<and> m \<in> sys_held ?s')"
    if "j < length cs" "in_section (sys_stages ?s' ! j)" for j
    using that D(1) nobody [of j] by (cases "j = i") (auto simp: mutex_of_def)
  show "sys_stages ?s' ! j = Called \<or>
           sys_stages ?s' ! j = Settled (Inl (invalid_error userId (cs ! j)))"
    if "j < length cs" "\<not> valid_request userId (cs ! j)" for j
    using that D(1) D(5) [of j] valid by (cases "j = i") auto
  show "j \<in> set (sys_grants ?s') \<longleftrightarrow>
           j < length cs \<and> valid_request userId (cs ! j) \<and>
           (in_section (sys_stages ?s' ! j) \<or> is_Settled (sys_stages ?s' ! j))" for j
    using D(1) D(6) [of j] ni valid i
    by (cases "j = i") (auto simp: in_section_def)
  have pd: "pending_db this userId cs s = db (sys_world s)"
    using nobody [of "last (sys_grants s)"] D(6) [of "last (sys_grants s)"]
    by (auto simp: pending_db_def)
  let ?wS = "snd (one_by_one this userId (map ((!) cs) (sys_grants s)) w0)"
  have dbS: "db ?wS = db (sys_world s)" using D(8) pd by simp
  have old: "map (\<lambda>j. outcome this userId (cs ! j) (sys_stages ?s' ! j) (db (sys_world ?s')))
         (sys_grants s) =
       map (\<lambda>j. outcome this userId (cs ! j) (sys_stages s ! j) (db (sys_world s))) (sys_grants s)"
    using same by (simp cong: map_cong)
  have new: "outcome this userId (cs ! i) (Selecting m) (db (sys_world s)) =
       fst (perform this userId (cs ! i) ?wS)"
    using perform_valid(1) [OF valid, of this ?wS m] dbS by (simp add: outcome_def)
  show "fst (one_by_one this userId (map ((!) cs) (sys_grants ?s')) w0) =
       map (\<lambda>i. outcome this userId (cs ! i) (sys_stages ?s' ! i) (db (sys_world ?s')))
         (sys_grants ?s')"
    using old new D(7) D(1) i by (simp add: one_by_one_append)
  show "db (snd (one_by_one this userId (map ((!) cs) (sys_grants ?s')) w0)) =
       pending_db this userId cs ?s'"
    using perform_valid(2) [OF valid, of this ?wS m] dbS D(1) i
    by (simp add: one_by_one_append pending_db_def in_section_def)
qed

lemma inv_inner:
  assumes I: "sys_inv this userId cs w0 s" and i: "i < length cs"
    and ins: "in_section (sys_stages s ! i)" "in_section st'"
    and mtx: "mutex_of st' = mutex_of (sys_stages s ! i)"
    and lk: "locks w1 = locks (sys_world s)"
    and rest: "section_rest this userId (cs ! i) st' (db w1) =
               section_rest this userId (cs ! i) (sys_stages s ! i) (db (sys_world s))"
  shows "sys_inv this userId cs w0
     \<lparr>sys_world = w1, sys_held = sys_held s, sys_stages = (sys_stages s)[i := st'],
       sys_grants = sys_grants s\<rparr>"
proof (rule invI)
  note D = invD [OF I]
  let ?s' = "\<lparr>sys_world = w1, sys_held = sys_held s, sys_stages = (sys_stages s)[i := st'],
       sys_grants = sys_grants s\<rparr>"
  have li: "sys_grants s \<noteq> []" "last (sys_grants s) = i" using D(4) [OF i ins(1)] by simp_all
  have others: "\<not> in_section (sys_stages s ! j)" if "j < length cs" "j \<noteq> i" for j
    using D(4) [OF that(1)] li that(2) by auto
  have valid: "valid_request userId (cs ! i)"
    using D(5) [OF i] ins(1) by (cases "valid_request userId (cs ! i)") (auto simp: in_section_def)
  have ns: "\<not> is_Settled (sys_stages s ! i)" "\<not> is_Settled st'"
    using ins by (auto simp: in_section_def is_Settled_def split: stage.splits)
  show "length (sys_stages ?s') = length cs" using D(1) by simp
  show "distinct (sys_grants ?s')" using D(2) by simp
  show "locks (sys_world ?s') (to_int userId) = Some m"
    if "j < length cs" "mutex_of (sys_stages ?s' ! j) = Some m" for j m
    using that D(1) D(3) [of j m] D(3) [OF i, of m] lk mtx by (cases "j = i") auto
  show "sys_grants ?s' \<noteq> [] \<and> last (sys_grants ?s') = j \<and>
           (\<exists>m. mutex_of (sys_stages ?s' ! j) = Some m \<and> m \<in> sys_held ?s')"
    if "j < length cs" "in_section (sys_stages ?s' ! j)" for j
    using that D(1) D(4) [OF i ins(1)] others [of j] mtx by (cases "j = i") auto
  show "sys_stages ?s' ! j = Called \<or>
           sys_stages ?s' ! j = Settled (Inl (invalid_error userId (cs ! j)))"
    if "j < length cs" "\<not> valid_request userId (cs ! j)" for j
    using that D(1) D(5) [of j] valid by (cases "j = i") auto
  show "j \<in> set (sys_grants ?s') \<longleftrightarrow>
           j < length cs \<and> valid_request userId (cs ! j) \<and>
           (in_section (sys_stages ?s' ! j) \<or> is_Settled (sys_stages ?s' ! j))" for j
    using D(1) D(6) [of j] ins i by (cases "j = i") auto
  have each: "outcome this userId (cs ! j) (sys_stages ?s' ! j) (db (sys_world ?s')) =
      outcome this userId (cs ! j) (sys_stages s ! j) (db (sys_world s))"
    if "j \<in> set (sys_grants s)" for j
  proof (cases "j = i")
    case True
    have "outcome this userId (cs ! i) st' (db w1) =
        settle userId (cs ! i) (fst (section_rest this userId (cs ! i) st' (db w1)))"
      using ns(2) by (cases st') (simp_all add: outcome_def is_Settled_def)
    moreover have "outcome this userId (cs ! i) (sys_stages s ! i) (db (sys_world s)) =
        settle userId (cs ! i)
          (fst (section_rest this userId (cs ! i) (sys_stages s ! i) (db (sys_world s))))"
      using ns(1) by (cases "sys_stages s ! i") (simp_all add: outcome_def is_Settled_def)
    ultimately show ?thesis using True rest D(1) i by simp
  next
    case False
    from that D(6) [of j] others [of j] False have "is_Settled (sys_stages s ! j)" by auto
    from outcome_Settled [OF this] False show ?thesis by simp
  qed
  show "fst (one_by_one this userId (map ((!) cs) (sys_grants ?s')) w0) =
       map (\<lambda>i. outcome this userId (cs ! i) (sys_stages ?s' ! i) (db (sys_world ?s')))
         (sys_grants ?s')"
    using D(7) each by (simp cong: map_cong)
  show "db (snd (one_by_one this userId (map ((!) cs) (sys_grants ?s')) w0)) =
       pending_db this userId cs ?s'"
    using D(8) D(1) li ins i rest by (simp add: pending_db_def)
qed

lemma inv_leave:
  assumes I: "sys_inv this userId cs w0 s" and i: "i < length cs"
    and lv: "sys_stages s ! i = Leaving m r"
  shows "sys_inv this userId cs w0
     \<lparr>sys_world = sys_world s, sys_held = sys_held s - {m},
       sys_stages = (sys_stages s)[i := Settled (settle userId (cs ! i) r)],
       sys_grants = sys_grants s\<rparr>"
proof (rule invI)
  note D = invD [OF I]
  let ?s' = "\<lparr>sys_world = sys_world s, sys_held = sys_held s - {m},
       sys_stages = (sys_stages s)[i := Settled (settle userId (cs ! i) r)],
       sys_grants = sys_grants s\<rparr>"
  have ins: "in_section (sys_stages s ! i)" using lv by (simp add: in_section_def)
  have li: "sys_grants s \<noteq> []" "last (sys_grants s) = i" using D(4) [OF i ins] by simp_all
  have others: "\<not> in_section (sys_stages s ! j)" if "j < length cs" "j \<noteq> i" for j
    using D(4) [OF that(1)] li that(2) by auto
  have valid: "valid_request userId (cs ! i)"
    using D(5) [OF i] lv by auto
  show "length (sys_stages ?s') = length cs" using D(1) by simp
  show "distinct (sys_grants ?s')" using D(2) by simp
  show "locks (sys_world ?s') (to_int userId) = Some m'"
    if "j < length cs" "mutex_of (sys_stages ?s' ! j) = Some m'" for j m'
    using that D(1) D(3) [of j m'] by (cases "j = i") (auto simp: mutex_of_def)
  show "sys_grants ?s' \<noteq> [] \<and> last (sys_grants ?s') = j \<and>
           (\<exists>m. mutex_of (sys_stages ?s' ! j) = Some m \<and> m \<in> sys_held ?s')"
    if "j < length cs" "in_section (sys_stages ?s' ! j)" for j
    using that D(1) others [of j] by (cases "j = i") (auto simp: in_section_def)
  show "sys_stages ?s' ! j = Called \<or>
           sys_stages ?s' ! j = Settled (Inl (invalid_error userId (cs ! j)))"
    if "j < length cs" "\<not> valid_request userId (cs ! j)" for j
    using that D(1) D(5) [of j] valid by (cases "j = i") auto
  show "j \<in> set (sys_grants ?s') \<longleftrightarrow>
           j < length cs \<and> valid_request userId (cs ! j) \<and>
           (in_section (sys_stages ?s' ! j) \<or> is_Settled (sys_stages ?s' ! j))" for j
    using D(1) D(6) [of j] ins i by (cases "j = i") (auto simp: is_Settled_def in_section_def)
  have each: "outcome this userId (cs ! j) (sys_stages ?s' ! j) (db (sys_world ?s')) =
      outcome this userId (cs ! j) (sys_stages s ! j) (db (sys_world s))"
    if "j \<in> set (sys_grants s)" for j
    using D(1) i lv by (cases "j = i") (simp_all add: outcome_def section_rest_def)
  show "fst (one_by_one this userId (map ((!) cs) (sys_grants ?s')) w0) =
       map (\<lambda>i. outcome this userId (cs ! i) (sys_stages ?s' ! i) (db (sys_world ?s')))
         (sys_grants ?s')"
    using D(7) each by (simp cong: map_cong)
  show "db (snd (one_by_one this userId (map ((!) cs) (sys_grants ?s')) w0)) =
       pending_db this userId cs ?s'"
    using D(8) D(1) li ins i lv by (simp add: pending_db_def in_section_def section_rest_def)
qed

lemma inv_advance:
  assumes I: "sys_inv this userId cs w0 s"
  shows "sys_inv this userId cs w0 (advance this userId cs i s)"
proof (cases "i < length cs")
  case False
  with I show ?thesis by (simp add: advance_def)
next
  case i: True
  note D = invD [OF I]
  have il: "i < length (sys_stages s)" using i D(1) by simp
  show ?thesis
  proof (cases "request_step this userId (cs ! i) (sys_stages s ! i) (sys_world s) (sys_held s)")
    case None
    with I show ?thesis by (simp add: advance_def)
  next
    case (Some x)
    obtain st' w1 h1 where x: "x = (st', w1, h1)" by (cases x)
    note step = Some [unfolded x]
    have adv: "advance this userId cs i s =
        \<lparr>sys_world = w1, sys_held = h1, sys_stages = (sys_stages s)[i := st'],
          sys_grants = (if is_Queued (sys_stages s ! i) then sys_grants s @ [i]
                        else sys_grants s)\<rparr>"
      using i il step by (simp add: advance_def)
    show ?thesis
    proof (cases "sys_stages s ! i")
      case Called
      from step_Called [OF step [unfolded Called]]
      have h: "h1 = sys_held s"
        and c: "if valid_request userId (cs ! i)
                then \<exists>m. st' = Queued m \<and>
                       getMutexForUser (to_int userId) (sys_world s) = (Some m, w1)
                else st' = Settled (Inl (invalid_error userId (cs ! i))) \<and> w1 = sys_world s"
        by simp_all
      have "sys_inv this userId cs w0
         \<lparr>sys_world = w1, sys_held = sys_held s, sys_stages = (sys_stages s)[i := st'],
           sys_grants = sys_grants s\<rparr>"
      proof (rule inv_outside [OF I i])
        show "\<not> in_section (sys_stages s ! i)" "\<not> is_Settled (sys_stages s ! i)"
          using Called by (simp_all add: in_section_def is_Settled_def)
        show "\<not> in_section st'" using c by (auto simp: in_section_def split: if_splits)
        show "db w1 = db (sys_world s)"
          using c by (auto simp: getMutexForUser_def Let_def split: if_splits)
        show "locks w1 v = Some x" if "locks (sys_world s) v = Some x" for v x
          using c that by (auto simp: getMutexForUser_def Let_def split: if_splits)
        show "locks w1 (to_int userId) = Some m" if "mutex_of st' = Some m" for m
          using c that by (auto simp: getMutexForUser_def Let_def mutex_of_def split: if_splits)
        show "if valid_request userId (cs ! i) then \<not> is_Settled st'
               else st' = Settled (Inl (invalid_error userId (cs ! i)))"
          using c by (auto simp: is_Settled_def)
      qed
      then show ?thesis using adv h Called by (simp add: is_Queued_def)
    next
      case (Queued m)
      from step_Queued [OF step [unfolded Queued]]
      have "m \<notin> sys_held s" "st' = Selecting m" "w1 = sys_world s" "h1 = insert m (sys_held s)"
        by simp_all
      with inv_grant [OF I i Queued] adv Queued show ?thesis by (simp add: is_Queued_def)
    next
      case (Leaving m r)
      from step_Leaving [OF step [unfolded Leaving]]
      have "st' = Settled (settle userId (cs ! i) r)" "w1 = sys_world s" "h1 = sys_held s - {m}"
        by simp_all
      with inv_leave [OF I i Leaving] adv Leaving show ?thesis by (simp add: is_Queued_def)
    next
      case (Settled r)
      with step show ?thesis by (simp add: step_Settled)
    next
      case (Selecting m)
      from step_inner [of "sys_stages s ! i" m 0 this userId "cs ! i" "sys_world s" "sys_held s"]
        step Selecting
      have f: "h1 = sys_held s" "in_section st'" "mutex_of st' = Some m"
        "locks w1 = locks (sys_world s)"
        "section_rest this userId (cs ! i) st' (db w1) =
         section_rest this userId (cs ! i) (sys_stages s ! i) (db (sys_world s))"
        by auto
      have "sys_inv this userId cs w0
         \<lparr>sys_world = w1, sys_held = sys_held s, sys_stages = (sys_stages s)[i := st'],
           sys_grants = sys_grants s\<rparr>"
        using f Selecting by (intro inv_inner [OF I i]) (simp_all add: in_section_def mutex_of_def)
      then show ?thesis using adv f(1) Selecting by (simp add: is_Queued_def)
    next
      case (Updating m p)
      from step_inner [of "sys_stages s ! i" m p this userId "cs ! i" "sys_world s" "sys_held s"]
        step Updating
      have f: "h1 = sys_held s" "in_section st'" "mutex_of st' = Some m"
        "locks w1 = locks (sys_world s)"
        "section_rest this userId (cs ! i) st' (db w1) =
         section_rest this userId (cs ! i) (sys_stages s ! i) (db (sys_world s))"
        by auto
      have "sys_inv this userId cs w0
         \<lparr>sys_world = w1, sys_held = sys_held s, sys_stages = (sys_stages s)[i := st'],
           sys_grants = sys_grants s\<rparr>"
        using f Updating by (intro inv_inner [OF I i]) (simp_all add: in_section_def mutex_of_def)
      then show ?thesis using adv f(1) Updating by (simp add: is_Queued_def)
    next
      case (Inserting m p)
      from step_inner [of "sys_stages s ! i" m p this userId "cs ! i" "sys_world s" "sys_held s"]
        step Inserting
      have f: "h1 = sys_held s" "in_section st'" "mutex_of st' = Some m"
        "locks w1 = locks (sys_world s)"
        "section_rest this userId (cs ! i) st' (db w1) =
         section_rest this userId (cs ! i) (sys_stages s ! i) (db (sys_world s))"
        by auto
      have "sys_inv this userId cs w0
         \<lparr>sys_world = w1, sys_held = sys_held s, sys_stages = (sys_stages s)[i := st'],
           sys_grants = sys_grants s\<rparr>"
        using f Inserting by (intro inv_inner [OF I i]) (simp_all add: in_section_def mutex_of_def)
      then show ?thesis using adv f(1) Inserting by (simp add: is_Queued_def)
    qed
  qed
qed

lemma inv_start: "sys_inv this userId cs w0 (start cs w0)"
  by (rule invI)
    (simp_all add: start_def mutex_of_def in_section_def is_Settled_def pending_db_def)

lemma inv_interleave:
  "sys_inv this userId cs w0 s \<Longrightarrow> sys_inv this userId cs w0 (interleave this userId cs sched s)"
  by (induction sched arbitrary: s) (simp_all add: inv_advance)

lemma inv_reachable: "sys_inv this userId cs w0 (interleave this userId cs sched (start cs w0))"
  by (rule inv_interleave [OF inv_start])

section \<open>Calls in flight: exclusion, serial order, bounds\<close>

lemma exclusion:
  assumes "sys_inv this userId cs w0 s" and "i < length cs" and "j < length cs"
    and "in_section (sys_stages s ! i)" and "in_section (sys_stages s ! j)"
  shows "i = j"
  using invD(4) [OF assms(1,2,4)] invD(4) [OF assms(1,3,5)] by simp

lemma mset_grants_rest:
  assumes "distinct g" and "set g \<subseteq> {..<n}"
  shows "mset (g @ filter (\<lambda>i. i \<notin> set g) [0..<n]) = mset [0..<n]"
proof -
  have "mset g = mset (filter (\<lambda>i. i \<in> set g) [0..<n])"
  proof (rule set_eq_iff_mset_eq_distinct [THEN iffD1])
    show "distinct g" by (rule assms(1))
    show "distinct (filter (\<lambda>i. i \<in> set g) [0..<n])" by simp
    show "set g = set (filter (\<lambda>i. i \<in> set g) [0..<n])" using assms(2) by auto
  qed
  then have "mset (g @ filter (\<lambda>i. i \<notin> set g) [0..<n]) =
      filter_mset (\<lambda>i. i \<in> set g) (mset [0..<n]) +
      filter_mset (\<lambda>i. i \<notin> set g) (mset [0..<n])"
    by (simp only: mset_append mset_filter)
  also have "\<dots> = mset [0..<n]"
    by (rule multiset_partition [symmetric])
  finally show ?thesis .
qed

lemma serial:
  assumes I: "sys_inv this userId cs w0 s"
    and all: "\<forall>i<length cs. is_Settled (sys_stages s ! i)"
  shows "\<exists>order. mset order = mset [0..<length cs]
     \<and> map Settled (fst (one_by_one this userId (map ((!) cs) order) w0)) =
         map ((!) (sys_stages s)) order
     \<and> db (snd (one_by_one this userId (map ((!) cs) order) w0)) = db (sys_world s)"
proof -
  note D = invD [OF I]
  let ?g = "sys_grants s"
  let ?r = "filter (\<lambda>i. i \<notin> set ?g) [0..<length cs]"
  let ?wS = "snd (one_by_one this userId (map ((!) cs) ?g) w0)"
  have sub: "set ?g \<subseteq> {..<length cs}" using D(6) by auto
  have settled: "is_Settled (sys_stages s ! i)" if "i < length cs" for i using all that by simp
  have nosec: "\<not> in_section (sys_stages s ! i)" if "i < length cs" for i
    using settled [OF that] by (auto simp: is_Settled_def in_section_def split: stage.splits)
  have invalid: "\<not> valid_request userId (cs ! i)" if "i \<in> set ?r" for i
    using that D(6) [of i] settled [of i] by auto
  then have inv_r: "\<forall>c\<in>set (map ((!) cs) ?r). \<not> valid_request userId c" by auto
  have r_stage: "sys_stages s ! i = Settled (Inl (invalid_error userId (cs ! i)))"
    if "i \<in> set ?r" for i
  proof -
    from that have i: "i < length cs" by simp
    from D(5) [OF i invalid [OF that]] settled [OF i] show ?thesis
      by (auto simp: is_Settled_def)
  qed
  have run: "one_by_one this userId (map ((!) cs) (?g @ ?r)) w0 =
      (fst (one_by_one this userId (map ((!) cs) ?g) w0) @
         map (\<lambda>c. Inl (invalid_error userId c)) (map ((!) cs) ?r), ?wS)"
    using one_by_one_invalid [OF inv_r, of this ?wS]
    by (simp add: one_by_one_append2)
  have g_part: "map Settled (fst (one_by_one this userId (map ((!) cs) ?g) w0)) =
      map ((!) (sys_stages s)) ?g"
  proof -
    have "Settled (outcome this userId (cs ! i) (sys_stages s ! i) (db (sys_world s))) =
        sys_stages s ! i" if "i \<in> set ?g" for i
      using that sub settled [of i] by (intro Settled_outcome) auto
    then show ?thesis unfolding D(7) by (simp cong: map_cong)
  qed
  have r_part: "map Settled (map (\<lambda>c. Inl (invalid_error userId c)) (map ((!) cs) ?r)) =
      map ((!) (sys_stages s)) ?r"
    using r_stage by (simp cong: map_cong)
  have pd: "pending_db this userId cs s = db (sys_world s)"
  proof (cases "?g = []")
    case True then show ?thesis by (simp add: pending_db_def)
  next
    case False
    then have "last ?g \<in> set ?g" by simp
    with sub have "last ?g < length cs" by auto
    from nosec [OF this] show ?thesis by (simp add: pending_db_def)
  qed
  have "mset (?g @ ?r) = mset [0..<length cs]"
    by (rule mset_grants_rest [OF D(2) sub])
  moreover have "map Settled (fst (one_by_one this userId (map ((!) cs) (?g @ ?r)) w0)) =
         map ((!) (sys_stages s)) (?g @ ?r)"
    unfolding run using g_part r_part by simp
  moreover have "db (snd (one_by_one this userId (map ((!) cs) (?g @ ?r)) w0)) = db (sys_world s)"
    unfolding run using D(8) pd by simp
  ultimately show ?thesis by blast
qed

lemma valid_amount_pos: "valid_request userId c \<Longrightarrow> 0 < to_int (r_amount c)"
  using positive_integer_iff [of "r_amount c"] by (auto simp: valid_request_def)

lemma step_mem_balance:
  assumes "request_step (inMemoryService limit) userId c st w held = Some (st', w1, h1)"
  shows "balance w1 v =
     (case st of Updating m p \<Rightarrow> if v = to_int userId then p else balance w v
      | _ \<Rightarrow> balance w v)"
  using assms
  by (cases st)
    (auto simp: request_step_def chargePoint_step_def usePoint_step_def inMemoryService_def
      inMemoryUserPointTable_def inMemoryPointHistoryTable_def on_db_def on_users_def
      on_histories_def balance_def getMutexForUser_def Let_def
      split: TransactionType.splits if_splits)

lemma step_mem_Updating:
  assumes "request_step (inMemoryService limit) userId c st w held = Some (Updating m p, w1, h1)"
  shows "case r_op c of
      CHARGE \<Rightarrow> p = nearest (balance w (to_int userId) + to_int (r_amount c)) \<and> p \<le> limit
    | USE \<Rightarrow> p = nearest (balance w (to_int userId) - to_int (r_amount c)) \<and> 0 \<le> p"
    and "\<exists>m. st = Selecting m"
  using assms
  by (cases st;
      auto simp: request_step_def chargePoint_step_def usePoint_step_def inMemoryService_def
      inMemoryUserPointTable_def inMemoryPointHistoryTable_def on_db_def on_users_def
      on_histories_def balance_def getMutexForUser_def Let_def
      split: TransactionType.splits if_splits)+

lemma bounded_advance:
  assumes B: "bounded P userId s" and I: "sys_inv (inMemoryService limit) userId cs w0 s"
    and up: "\<And>b a. P b \<Longrightarrow> 0 < a \<Longrightarrow> nearest (b + a) \<le> limit \<Longrightarrow> P (nearest (b + a))"
    and down: "\<And>b a. P b \<Longrightarrow> 0 < a \<Longrightarrow> 0 \<le> nearest (b - a) \<Longrightarrow> P (nearest (b - a))"
  shows "bounded P userId (advance (inMemoryService limit) userId cs i s)"
proof (cases "i < length cs \<and> i < length (sys_stages s)")
  case False
  with B show ?thesis by (auto simp: advance_def)
next
  case i: True
  show ?thesis
  proof (cases "request_step (inMemoryService limit) userId (cs ! i) (sys_stages s ! i)
                  (sys_world s) (sys_held s)")
    case None
    with B show ?thesis by (simp add: advance_def)
  next
    case (Some x)
    obtain st' w1 h1 where x: "x = (st', w1, h1)" by (cases x)
    note step = Some [unfolded x]
    from B have b0: "P (balance (sys_world s) (to_int userId))"
      and b1: "\<And>st m p. st \<in> set (sys_stages s) \<Longrightarrow> st = Updating m p \<Longrightarrow> P p"
      by (auto simp: bounded_def)
    have mem: "sys_stages s ! i \<in> set (sys_stages s)" using i by simp
    have bal: "P (balance w1 (to_int userId))"
      using step_mem_balance [OF step, of "to_int userId"] b0 b1 [OF mem]
      by (cases "sys_stages s ! i") auto
    have new: "P p" if "st' = Updating m p" for m p
    proof -
      note u = step_mem_Updating [OF step [unfolded that]]
      from u(2) obtain m' where sel: "sys_stages s ! i = Selecting m'" by blast
      have "valid_request userId (cs ! i)"
        using invD(5) [OF I, of i] i sel by auto
      from valid_amount_pos [OF this] u(1) b0 up down show ?thesis
        by (cases "r_op (cs ! i)") auto
    qed
    have "\<forall>st\<in>set ((sys_stages s)[i := st']). \<forall>m p. st = Updating m p \<longrightarrow> P p"
      using new b1 set_update_subset_insert [of "sys_stages s" i st'] by blast
    with bal show ?thesis
      using i step by (simp add: advance_def bounded_def)
  qed
qed

lemma bounded_interleave:
  assumes "bounded P userId s" and "sys_inv (inMemoryService limit) userId cs w0 s"
    and "\<And>b a. P b \<Longrightarrow> 0 < a \<Longrightarrow> nearest (b + a) \<le> limit \<Longrightarrow> P (nearest (b + a))"
    and "\<And>b a. P b \<Longrightarrow> 0 < a \<Longrightarrow> 0 \<le> nearest (b - a) \<Longrightarrow> P (nearest (b - a))"
  shows "bounded P userId (interleave (inMemoryService limit) userId cs sched s)"
  using assms(1,2)
proof (induction sched arbitrary: s)
  case Nil
  then show ?case by simp
next
  case (Cons i sched)
  from bounded_advance [OF Cons.prems assms(3,4)] inv_advance [OF Cons.prems(2)]
  show ?case by (simp add: Cons.IH)
qed

lemma bounded_start: "P (balance w0 (to_int userId)) \<Longrightarrow> bounded P userId (start cs w0)"
  by (simp add: bounded_def start_def)

lemma nonneg_reachable:
  assumes "0 \<le> balance w0 (to_int userId)"
  shows "0 \<le> balance (sys_world (interleave (inMemoryService limit) userId cs sched
            (start cs w0))) (to_int userId)"
proof -
  have "bounded (\<lambda>b. 0 \<le> b) userId
      (interleave (inMemoryService limit) userId cs sched (start cs w0))"
    by (rule bounded_interleave [OF bounded_start inv_start])
      (use assms in \<open>auto intro: nearest_nonneg\<close>)
  then show ?thesis by (simp add: bounded_def)
qed

text \<open>
  A use lowers the balance: the difference of two doubles is at most the limit when the
  exact difference is, the limit being a double itself.
\<close>

lemma limit_reachable:
  assumes "representable limit" and "balance w0 (to_int userId) \<le> limit"
  shows "balance (sys_world (interleave (inMemoryService limit) userId cs sched
            (start cs w0))) (to_int userId) \<le> limit"
proof -
  have fits: "significand_fits limit" using assms(1) by (simp add: representable_def)
  have down: "nearest (b - a) \<le> limit"
    if "b \<le> limit" "0 < a" "0 \<le> nearest (b - a)" for b a
  proof -
    have "0 \<le> b - a" using nearest_neg [of "b - a"] that(3) by linarith
    moreover have "b - a \<le> limit" using that(1,2) by simp
    ultimately show ?thesis using fits by (rule nearest_le)
  qed
  have "bounded (\<lambda>b. b \<le> limit) userId
      (interleave (inMemoryService limit) userId cs sched (start cs w0))"
    by (rule bounded_interleave [OF bounded_start inv_start]) (use assms(2) down in auto)
  then show ?thesis by (simp add: bounded_def)
qed

lemma five_sequential:
  assumes u: "0 < u" and len: "length xs = 5"
    and ch: "\<forall>c\<in>set xs. r_op c = CHARGE \<and> r_amount c = Finite 500"
    and b0: "balance w u = 0"
  shows "\<exists>p q. fst (one_by_one (inMemoryService 1000) (Finite (of_int u)) xs w) =
      [Inr p, Inr q, Inl (LimitExceeded 1000), Inl (LimitExceeded 1000),
       Inl (LimitExceeded 1000)]"
    and "balance (snd (one_by_one (inMemoryService 1000) (Finite (of_int u)) xs w)) u = 1000"
proof -
  from len obtain c1 c2 c3 c4 c5 where xs: "xs = [c1, c2, c3, c4, c5]"
    by (auto simp: length_Suc_conv eval_nat_numeral)
  note f = chargePoint_mem_fst [OF u, where a = 500 and limit = 1000, simplified]
  note b = chargePoint_mem_balance [OF u, where a = 500 and limit = 1000 and v = u, simplified]
  have p: "perform (inMemoryService 1000) (Finite (of_int u)) c w' =
      chargePoint (inMemoryService 1000) (r_tInsert c) (r_tReturn c) (Finite (of_int u))
        (Finite 500) w'" if "c \<in> set xs" for c w'
    using ch that by (simp add: perform_def)
  show "\<exists>p q. fst (one_by_one (inMemoryService 1000) (Finite (of_int u)) xs w) =
      [Inr p, Inr q, Inl (LimitExceeded 1000), Inl (LimitExceeded 1000),
       Inl (LimitExceeded 1000)]"
    unfolding xs one_by_one_Cons using p b0 by (simp add: xs f b nearest_small)
  show "balance (snd (one_by_one (inMemoryService 1000) (Finite (of_int u)) xs w)) u = 1000"
    unfolding xs one_by_one_Cons using p b0 by (simp add: xs f b nearest_small)
qed

lemma five_charges:
  assumes u: "0 < u" and len: "length cs = 5"
    and ch: "\<forall>c\<in>set cs. r_op c = CHARGE \<and> r_amount c = Finite 500"
    and b0: "balance w0 u = 0"
    and all: "\<forall>i<5. is_Settled (sys_stages
        (interleave (inMemoryService 1000) (Finite (of_int u)) cs sched (start cs w0)) ! i)"
  shows "length (filter is_fulfilled (sys_stages
        (interleave (inMemoryService 1000) (Finite (of_int u)) cs sched (start cs w0)))) = 2
    \<and> length (filter (\<lambda>st. st = Settled (Inl (LimitExceeded 1000))) (sys_stages
        (interleave (inMemoryService 1000) (Finite (of_int u)) cs sched (start cs w0)))) = 3
    \<and> balance (sys_world
        (interleave (inMemoryService 1000) (Finite (of_int u)) cs sched (start cs w0))) u = 1000"
proof -
  let ?s = "interleave (inMemoryService 1000) (Finite (of_int u)) cs sched (start cs w0)"
  have I: "sys_inv (inMemoryService 1000) (Finite (of_int u)) cs w0 ?s" by (rule inv_reachable)
  from serial [OF I] all len obtain order where
    o: "mset order = mset [0..<length cs]"
    and r: "map Settled (fst (one_by_one (inMemoryService 1000) (Finite (of_int u))
              (map ((!) cs) order) w0)) = map ((!) (sys_stages ?s)) order"
    and d: "db (snd (one_by_one (inMemoryService 1000) (Finite (of_int u))
              (map ((!) cs) order) w0)) = db (sys_world ?s)"
    by auto
  let ?xs = "map ((!) cs) order"
  from o have "set order = set [0..<length cs]" by (rule mset_eq_setD)
  then have xs_in: "\<forall>c\<in>set ?xs. r_op c = CHARGE \<and> r_amount c = Finite 500"
    using ch by auto
  from o have "length order = length [0..<length cs]" by (rule mset_eq_length)
  then have xs_len: "length ?xs = 5" using len by simp
  from five_sequential [OF u xs_len xs_in b0] obtain p q where
    rs: "fst (one_by_one (inMemoryService 1000) (Finite (of_int u)) ?xs w0) =
      [Inr p, Inr q, Inl (LimitExceeded 1000), Inl (LimitExceeded 1000),
       Inl (LimitExceeded 1000)]"
    and bal: "balance (snd (one_by_one (inMemoryService 1000) (Finite (of_int u)) ?xs w0)) u = 1000"
    by blast
  have stages: "map ((!) (sys_stages ?s)) [0..<length cs] = sys_stages ?s"
    using invD(1) [OF I] by (metis map_nth)
  have "mset (sys_stages ?s) = image_mset ((!) (sys_stages ?s)) (mset [0..<length cs])"
    using stages by (metis mset_map)
  also have "\<dots> = mset (map ((!) (sys_stages ?s)) order)" using o by simp
  also have "\<dots> = mset [Settled (Inr p), Settled (Inr q), Settled (Inl (LimitExceeded 1000)),
      Settled (Inl (LimitExceeded 1000)), Settled (Inl (LimitExceeded 1000))]"
    using r rs by simp
  finally have ms: "mset (sys_stages ?s) =
      mset [Settled (Inr p), Settled (Inr q), Settled (Inl (LimitExceeded 1000)),
        Settled (Inl (LimitExceeded 1000)), Settled (Inl (LimitExceeded 1000))]" .
  have cnt: "length (filter P (sys_stages ?s)) =
      length (filter P [Settled (Inr p), Settled (Inr q), Settled (Inl (LimitExceeded 1000)),
        Settled (Inl (LimitExceeded 1000)), Settled (Inl (LimitExceeded 1000))])" for P
    using ms by (metis mset_filter size_mset)
  have "balance (sys_world ?s) u = 1000"
    using bal d by (simp add: balance_def)
  then show ?thesis
    unfolding cnt by (simp add: is_fulfilled_def)
qed

lemma five_run:
  "sys_stages (interleave (inMemoryService 1000) (Finite 1)
     (replicate 5 \<lparr>r_op = CHARGE, r_amount = Finite 500, r_tInsert = 5, r_tReturn = 6\<rparr>)
     [0,1,2,3,4, 2,2, 0,1, 2,2,2, 4,4,4, 0, 4, 4,4, 3,3,3,3, 1,1,1, 0,0,0]
     (start (replicate 5 \<lparr>r_op = CHARGE, r_amount = Finite 500, r_tInsert = 5, r_tReturn = 6\<rparr>)
        freshWorld)) =
     [Settled (Inl (LimitExceeded 1000)), Settled (Inl (LimitExceeded 1000)),
       Settled (Inr \<lparr>u_id = 1, point = 500, updateMillis = 6\<rparr>),
       Settled (Inl (LimitExceeded 1000)),
       Settled (Inr \<lparr>u_id = 1, point = 1000, updateMillis = 6\<rparr>)]"
  by code_simp

lemma step_remaining:
  assumes "request_step this userId c st w held = Some (st', w1, h1)"
  shows "remaining st' < remaining st"
  using assms
  by (cases st)
    (auto simp: request_step_def chargePoint_step_def usePoint_step_def remaining_def Let_def
      split: TransactionType.splits if_splits prod.splits sum.splits option.splits)

lemma step_held:
  assumes "request_step this userId c st w held = Some (st', w1, h1)"
  shows "(in_section st \<longrightarrow> (in_section st' \<and> mutex_of st' = mutex_of st \<and> h1 = held) \<or>
            (\<not> in_section st' \<and> (\<exists>m. mutex_of st = Some m \<and> h1 = held - {m})))
       \<and> (\<not> in_section st \<longrightarrow> (\<not> in_section st' \<and> h1 = held) \<or>
            (\<exists>m. in_section st' \<and> mutex_of st' = Some m \<and> h1 = insert m held))"
  using assms
  by (cases st)
    (auto simp: request_step_def chargePoint_step_def usePoint_step_def in_section_def
      mutex_of_def Let_def
      split: TransactionType.splits if_splits prod.splits sum.splits option.splits)

lemma held_advance:
  assumes H: "held_by_someone cs s" and len: "length (sys_stages s) = length cs"
  shows "held_by_someone cs (advance this userId cs i s)"
proof (cases "i < length cs")
  case False
  with H show ?thesis by (simp add: advance_def)
next
  case i: True
  show ?thesis
  proof (cases "request_step this userId (cs ! i) (sys_stages s ! i) (sys_world s) (sys_held s)")
    case None
    with H show ?thesis by (simp add: advance_def)
  next
    case (Some x)
    obtain st' w1 h1 where x: "x = (st', w1, h1)" by (cases x)
    note step = Some [unfolded x]
    note sh = step_held [OF step]
    have "\<exists>j<length cs. in_section ((sys_stages s)[i := st'] ! j) \<and>
            mutex_of ((sys_stages s)[i := st'] ! j) = Some m" if m: "m \<in> h1" for m
    proof (cases "m \<in> sys_held s")
      case True
      with H obtain j where j: "j < length cs" "in_section (sys_stages s ! j)"
        "mutex_of (sys_stages s ! j) = Some m" by (auto simp: held_by_someone_def)
      show ?thesis
      proof (cases "j = i")
        case False
        with j show ?thesis by auto
      next
        case True
        with j sh m have "in_section st' \<and> mutex_of st' = Some m" by auto
        with True i len show ?thesis by auto
      qed
    next
      case False
      with sh m have "in_section st' \<and> mutex_of st' = Some m" by auto
      with i len show ?thesis by auto
    qed
    then show ?thesis
      using i len step by (simp add: advance_def held_by_someone_def)
  qed
qed

lemma advance_length: "length (sys_stages (advance this userId cs i s)) = length (sys_stages s)"
  by (simp add: advance_def split: option.splits prod.splits)

lemma advance_total:
  assumes "i < length cs" and "length (sys_stages s) = length cs"
    and "request_step this userId (cs ! i) (sys_stages s ! i) (sys_world s) (sys_held s) \<noteq> None"
  shows "sum_list (map remaining (sys_stages (advance this userId cs i s))) <
         sum_list (map remaining (sys_stages s))"
proof -
  from assms(3) obtain st' w1 h1 where
    step: "request_step this userId (cs ! i) (sys_stages s ! i) (sys_world s) (sys_held s) =
       Some (st', w1, h1)" by (cases "request_step this userId (cs ! i) (sys_stages s ! i)
         (sys_world s) (sys_held s)") auto
  have il: "i < length (map remaining (sys_stages s))" using assms by simp
  have "sum_list ((map remaining (sys_stages s))[i := remaining st']) =
      sum_list (map remaining (sys_stages s)) + remaining st' - map remaining (sys_stages s) ! i"
    by (rule sum_list_update [OF il])
  moreover have "map remaining (sys_stages s) ! i \<le> sum_list (map remaining (sys_stages s))"
    by (rule elem_le_sum_list [OF il])
  moreover have "remaining st' < map remaining (sys_stages s) ! i"
    using step_remaining [OF step] assms by simp
  ultimately show ?thesis
    using assms step by (simp add: advance_def map_update)
qed

lemma progress:
  assumes I: "sys_inv this userId cs w0 s" and H: "held_by_someone cs s"
    and open_: "i < length cs" "\<not> is_Settled (sys_stages s ! i)"
  shows "\<exists>j<length cs.
     request_step this userId (cs ! j) (sys_stages s ! j) (sys_world s) (sys_held s) \<noteq> None"
proof (cases "\<exists>j<length cs. in_section (sys_stages s ! j)")
  case True
  then obtain j where j: "j < length cs" "in_section (sys_stages s ! j)" by blast
  have "request_step this userId (cs ! j) (sys_stages s ! j) (sys_world s) (sys_held s) \<noteq> None"
  proof (cases "sys_stages s ! j")
    case (Selecting m)
    with step_inner [of "sys_stages s ! j" m 0 this userId "cs ! j" "sys_world s" "sys_held s"]
    show ?thesis by auto
  next
    case (Updating m p)
    with step_inner [of "sys_stages s ! j" m p this userId "cs ! j" "sys_world s" "sys_held s"]
    show ?thesis by auto
  next
    case (Inserting m p)
    with step_inner [of "sys_stages s ! j" m p this userId "cs ! j" "sys_world s" "sys_held s"]
    show ?thesis by auto
  next
    case (Leaving m r)
    then show ?thesis
      by (simp add: request_step_def chargePoint_step_def usePoint_step_def
          split: TransactionType.splits)
  qed (use j in \<open>simp_all add: in_section_def\<close>)
  with j show ?thesis by blast
next
  case False
  with H have free: "sys_held s = {}" by (auto simp: held_by_someone_def)
  have "request_step this userId (cs ! i) (sys_stages s ! i) (sys_world s) (sys_held s) \<noteq> None"
  proof (cases "sys_stages s ! i")
    case Called
    obtain m w1 where "getMutexForUser (to_int userId) (sys_world s) = (Some m, w1)"
      by (rule getMutexForUser_Some [of "to_int userId" "sys_world s"])
    with Called show ?thesis
      by (simp add: request_step_def chargePoint_step_def usePoint_step_def
          split: TransactionType.splits)
  next
    case (Queued m)
    with free show ?thesis
      by (simp add: request_step_def chargePoint_step_def usePoint_step_def
          split: TransactionType.splits)
  qed (use False open_ in \<open>auto simp: in_section_def is_Settled_def\<close>)
  with open_ show ?thesis by blast
qed

lemma can_settle:
  assumes "sys_inv this userId cs w0 s" and "held_by_someone cs s"
  shows "\<exists>more. \<forall>i<length cs. is_Settled (sys_stages (interleave this userId cs more s) ! i)"
  using assms
proof (induction "sum_list (map remaining (sys_stages s))" arbitrary: s rule: less_induct)
  case less
  show ?case
  proof (cases "\<forall>i<length cs. is_Settled (sys_stages s ! i)")
    case True
    then have "\<forall>i<length cs. is_Settled (sys_stages (interleave this userId cs [] s) ! i)"
      by simp
    then show ?thesis by blast
  next
    case False
    then obtain i where i: "i < length cs" "\<not> is_Settled (sys_stages s ! i)" by blast
    from progress [OF less.prems i] obtain j where j: "j < length cs"
      "request_step this userId (cs ! j) (sys_stages s ! j) (sys_world s) (sys_held s) \<noteq> None"
      by blast
    note len = invD(1) [OF less.prems(1)]
    let ?s' = "advance this userId cs j s"
    from less.hyps [OF advance_total [OF j(1) len j(2)] inv_advance [OF less.prems(1)]
        held_advance [OF less.prems(2) len]]
    obtain more where
      "\<forall>i<length cs. is_Settled (sys_stages (interleave this userId cs more ?s') ! i)"
      by blast
    then have "\<forall>i<length cs. is_Settled (sys_stages (interleave this userId cs (j # more) s) ! i)"
      by simp
    then show ?thesis by blast
  qed
qed

lemma interleave_append:
  "interleave this userId cs (xs @ ys) s =
     interleave this userId cs ys (interleave this userId cs xs s)"
  by (induction xs arbitrary: s) simp_all

lemma held_interleave:
  "held_by_someone cs s \<Longrightarrow> length (sys_stages s) = length cs \<Longrightarrow>
     held_by_someone cs (interleave this userId cs sched s)"
  by (induction sched arbitrary: s) (simp_all add: held_advance advance_length)

lemma can_always_settle:
  "\<exists>more. \<forall>i<length cs.
     is_Settled (sys_stages (interleave this userId cs (sched @ more) (start cs w0)) ! i)"
proof -
  have "held_by_someone cs (interleave this userId cs sched (start cs w0))"
    by (rule held_interleave) (simp_all add: held_by_someone_def start_def)
  from can_settle [OF inv_reachable this] show ?thesis
    by (simp add: interleave_append)
qed

text \<open>
  Claim C8. Take any requests \<open>cs\<close> of \<open>chargePoint\<close> and \<open>usePoint\<close> for one user id,
  started together, and any schedule of their steps. (1) At no moment are two of the calls
  inside their critical sections. (2) When all calls have settled, there is an order of the
  requests such that running them one by one in that order, each as a call of its own
  from the state the previous one left, settles every request as the concurrent run did
  and leaves the two tables in the same state. This holds whatever the two tables are.
  (3) On the in-memory tables, a balance that was at least 0 at the start is at least 0
  in every state of the run, and one that was at most \<open>chargeLimit\<close> is at most
  \<open>chargeLimit\<close> in every state of the run, \<open>chargeLimit\<close> being a number: a
  double. (4) With \<open>chargeLimit = 1000\<close> and a user
  at balance 0, five concurrent charges of 500 settle as two fulfilments and three
  rejections with the limit error, and the final balance is 1000. (5) Whatever steps have
  been taken, the run can be continued until every call has settled: no call is left
  waiting for a mutex that is never released.
\<close>

theorem concurrent_requests_serializable:
  "(\<forall>i<length cs. \<forall>j<length cs.
       in_section (sys_stages (interleave this userId cs sched (start cs w0)) ! i) \<and>
       in_section (sys_stages (interleave this userId cs sched (start cs w0)) ! j) \<longrightarrow> i = j)
   \<and> ((\<forall>i<length cs. is_Settled (sys_stages (interleave this userId cs sched (start cs w0)) ! i))
       \<longrightarrow> (\<exists>order. mset order = mset [0..<length cs]
             \<and> map Settled (fst (one_by_one this userId (map ((!) cs) order) w0)) =
                 map ((!) (sys_stages (interleave this userId cs sched (start cs w0)))) order
             \<and> db (snd (one_by_one this userId (map ((!) cs) order) w0)) =
                 db (sys_world (interleave this userId cs sched (start cs w0)))))
   \<and> (0 \<le> balance m0 (to_int userId) \<longrightarrow>
        0 \<le> balance (sys_world (interleave (inMemoryService limit) userId cs sched (start cs m0)))
              (to_int userId))
   \<and> (representable limit \<and> balance m0 (to_int userId) \<le> limit \<longrightarrow>
        balance (sys_world (interleave (inMemoryService limit) userId cs sched (start cs m0)))
          (to_int userId) \<le> limit)
   \<and> (0 < u \<and> length cs = 5 \<and> (\<forall>c\<in>set cs. r_op c = CHARGE \<and> r_amount c = Finite 500) \<and>
       balance m0 u = 0 \<and>
       (\<forall>i<5. is_Settled (sys_stages
          (interleave (inMemoryService 1000) (Finite (of_int u)) cs sched (start cs m0)) ! i))
       \<longrightarrow>
         length (filter is_fulfilled (sys_stages
           (interleave (inMemoryService 1000) (Finite (of_int u)) cs sched (start cs m0)))) = 2
       \<and> length (filter (\<lambda>st. st = Settled (Inl (LimitExceeded 1000))) (sys_stages
           (interleave (inMemoryService 1000) (Finite (of_int u)) cs sched (start cs m0)))) = 3
       \<and> balance (sys_world
           (interleave (inMemoryService 1000) (Finite (of_int u)) cs sched (start cs m0))) u = 1000)
   \<and> (\<exists>more. \<forall>i<length cs.
         is_Settled (sys_stages (interleave this userId cs (sched @ more) (start cs w0)) ! i))"
proof -
  have I: "sys_inv this userId cs w0 (interleave this userId cs sched (start cs w0))"
    by (rule inv_reachable)
  have a: "\<forall>i<length cs. \<forall>j<length cs.
       in_section (sys_stages (interleave this userId cs sched (start cs w0)) ! i) \<and>
       in_section (sys_stages (interleave this userId cs sched (start cs w0)) ! j) \<longrightarrow> i = j"
    using exclusion [OF I] by blast
  have b: "(\<forall>i<length cs. is_Settled (sys_stages (interleave this userId cs sched (start cs w0)) ! i))
       \<longrightarrow> (\<exists>order. mset order = mset [0..<length cs]
             \<and> map Settled (fst (one_by_one this userId (map ((!) cs) order) w0)) =
                 map ((!) (sys_stages (interleave this userId cs sched (start cs w0)))) order
             \<and> db (snd (one_by_one this userId (map ((!) cs) order) w0)) =
                 db (sys_world (interleave this userId cs sched (start cs w0))))"
    using serial [OF I] by blast
  from a b nonneg_reachable [of m0 userId limit cs sched]
    limit_reachable [of limit m0 userId cs sched]
    five_charges [of u cs m0 sched] can_always_settle [of cs this userId sched w0]
  show ?thesis by blast
qed

theorem concurrent_requests_serializable_witness:
  "sys_stages (interleave (inMemoryService 1000) (Finite 1)
       (replicate 5 \<lparr>r_op = CHARGE, r_amount = Finite 500, r_tInsert = 5, r_tReturn = 6\<rparr>)
       [0,1,2,3,4, 2,2, 0,1, 2,2,2, 4,4,4, 0, 4, 4,4, 3,3,3,3, 1,1,1, 0,0,0]
       (start (replicate 5 \<lparr>r_op = CHARGE, r_amount = Finite 500, r_tInsert = 5, r_tReturn = 6\<rparr>)
          freshWorld)) =
     [Settled (Inl (LimitExceeded 1000)), Settled (Inl (LimitExceeded 1000)),
      Settled (Inr \<lparr>u_id = 1, point = 500, updateMillis = 6\<rparr>),
      Settled (Inl (LimitExceeded 1000)),
      Settled (Inr \<lparr>u_id = 1, point = 1000, updateMillis = 6\<rparr>)]
   \<and> length (filter is_fulfilled (sys_stages (interleave (inMemoryService 1000) (Finite 1)
       (replicate 5 \<lparr>r_op = CHARGE, r_amount = Finite 500, r_tInsert = 5, r_tReturn = 6\<rparr>)
       [0,1,2,3,4, 2,2, 0,1, 2,2,2, 4,4,4, 0, 4, 4,4, 3,3,3,3, 1,1,1, 0,0,0]
       (start (replicate 5 \<lparr>r_op = CHARGE, r_amount = Finite 500, r_tInsert = 5, r_tReturn = 6\<rparr>)
          freshWorld)))) = 2
   \<and> length (filter (\<lambda>st. st = Settled (Inl (LimitExceeded 1000)))
       (sys_stages (interleave (inMemoryService 1000) (Finite 1)
       (replicate 5 \<lparr>r_op = CHARGE, r_amount = Finite 500, r_tInsert = 5, r_tReturn = 6\<rparr>)
       [0,1,2,3,4, 2,2, 0,1, 2,2,2, 4,4,4, 0, 4, 4,4, 3,3,3,3, 1,1,1, 0,0,0]
       (start (replicate 5 \<lparr>r_op = CHARGE, r_amount = Finite 500, r_tInsert = 5, r_tReturn = 6\<rparr>)
          freshWorld)))) = 3
   \<and> balance (sys_world (interleave (inMemoryService 1000) (Finite 1)
       (replicate 5 \<lparr>r_op = CHARGE, r_amount = Finite 500, r_tInsert = 5, r_tReturn = 6\<rparr>)
       [0,1,2,3,4, 2,2, 0,1, 2,2,2, 4,4,4, 0, 4, 4,4, 3,3,3,3, 1,1,1, 0,0,0]
       (start (replicate 5 \<lparr>r_op = CHARGE, r_amount = Finite 500, r_tInsert = 5, r_tReturn = 6\<rparr>)
          freshWorld))) 1 = 1000
   \<and> (\<exists>order. mset order = mset [0..<5]
        \<and> map Settled (fst (one_by_one (inMemoryService 1000) (Finite 1)
             (map ((!) (replicate 5
                \<lparr>r_op = CHARGE, r_amount = Finite 500, r_tInsert = 5, r_tReturn = 6\<rparr>)) order)
             freshWorld)) =
           map ((!) (sys_stages (interleave (inMemoryService 1000) (Finite 1)
             (replicate 5 \<lparr>r_op = CHARGE, r_amount = Finite 500, r_tInsert = 5, r_tReturn = 6\<rparr>)
             [0,1,2,3,4, 2,2, 0,1, 2,2,2, 4,4,4, 0, 4, 4,4, 3,3,3,3, 1,1,1, 0,0,0]
             (start (replicate 5
                \<lparr>r_op = CHARGE, r_amount = Finite 500, r_tInsert = 5, r_tReturn = 6\<rparr>)
                freshWorld)))) order)
   \<and> representable 1000 \<and> balance freshWorld 1 \<le> 1000"
proof -
  let ?cs = "replicate 5 \<lparr>r_op = CHARGE, r_amount = Finite 500, r_tInsert = 5, r_tReturn = 6\<rparr>"
  let ?sched = "[0,1,2,3,4, 2,2, 0,1, 2,2,2, 4,4,4, 0, 4, 4,4, 3,3,3,3, 1,1,1, 0,0,0] :: nat list"
  let ?s = "interleave (inMemoryService 1000) (Finite 1) ?cs ?sched (start ?cs freshWorld)"
  have all: "\<forall>i<5. is_Settled (sys_stages ?s ! i)"
    unfolding five_run by (simp add: is_Settled_def less_Suc_eq eval_nat_numeral)
  have len: "length ?cs = 5" and ch: "\<forall>c\<in>set ?cs. r_op c = CHARGE \<and> r_amount c = Finite 500"
    by simp_all
  note t = concurrent_requests_serializable [where cs = ?cs and this = "inMemoryService 1000"
      and userId = "Finite 1" and sched = ?sched and ?w0.0 = freshWorld and ?m0.0 = freshWorld
      and limit = 1000 and u = 1]
  have one: "Finite (rat_of_int 1) = Finite 1" by simp
  note b = t [THEN conjunct2, THEN conjunct1, unfolded len]
  note d = t [THEN conjunct2, THEN conjunct2, THEN conjunct2, THEN conjunct2, THEN conjunct1,
      unfolded one]
  have z: "(0::int) < 1" and bf: "balance freshWorld 1 = 0" by simp_all
  have r: "representable 1000" "balance freshWorld 1 \<le> 1000"
    by (simp_all add: representable_small)
  from d z len ch bf all
  have "length (filter is_fulfilled (sys_stages ?s)) = 2
    \<and> length (filter (\<lambda>st. st = Settled (Inl (LimitExceeded 1000))) (sys_stages ?s)) = 3
    \<and> balance (sys_world ?s) 1 = 1000"
    by blast
  with b all five_run r show ?thesis by blast
qed

end
